theory Spec2Isabelle
  imports Main
begin

section \<open>Data model (\<^verbatim>\<open>types.ts\<close>)\<close>

text \<open>
  The interfaces of \<^verbatim>\<open>types.ts\<close> become records and its string unions become
  datatypes.  Record fields are global constants in HOL, so the fields of
  \<^verbatim>\<open>WeekSummary\<close> and \<^verbatim>\<open>QuarterSummary\<close> carry the prefixes \<open>ws_\<close> and \<open>qs_\<close>,
  and the field \<^verbatim>\<open>notes\<close>, a keyword of Isabelle, carries a prime; otherwise the
  fields keep the names of the source.  JavaScript numbers that hold counts, years and
  week numbers are modelled as \<open>int\<close>.
\<close>

datatype WorkLocation = Office | Home | Vacation | Sick

record DayEntry =
  date :: string
  location :: WorkLocation
  notes' :: "string option"

record WeekSummary =
  ws_weekNumber :: int
  ws_year :: int
  ws_startDate :: string
  ws_endDate :: string
  ws_officeDays :: int
  ws_isCompliant :: bool
  ws_days :: "DayEntry list"

datatype ComplianceStatus = Compliant | Warning | Danger

record QuarterSummary =
  qs_quarter :: int
  qs_year :: int
  qs_compliantWeeks :: int
  qs_totalWeeks :: int
  qs_status :: ComplianceStatus
  qs_weeks :: "WeekSummary list"

record ComplianceConfig =
  requiredOfficeDaysPerWeek :: int
  requiredCompliantWeeksPerQuarter :: int
  warningThresholdWeeks :: int

section \<open>Time values of the ECMAScript Date object\<close>

text \<open>
  A \<^verbatim>\<open>Date\<close> is modelled by its time value: the number of milliseconds since
  1970-01-01T00:00:00Z.  The definitions below follow the abstract operations of the
  ECMAScript specification (Day, DayFromYear, YearFromTime, MonthFromTime, DateFromTime,
  WeekDay, MakeDay, MakeFullYear) on which the methods used by \<^verbatim>\<open>date-utils.ts\<close>
  are built.  The Invalid Date (time values beyond 8.64e15 ms) is outside the model.
\<close>

definition msPerDay :: int where
  "msPerDay = 86400000"

definition Day :: "int \<Rightarrow> int" where
  "Day t = t div msPerDay"

definition TimeWithinDay :: "int \<Rightarrow> int" where
  "TimeWithinDay t = t mod msPerDay"

definition DaysInYear :: "int \<Rightarrow> int" where
  "DaysInYear y =
     (if y mod 4 \<noteq> 0 then 365
      else if y mod 100 \<noteq> 0 then 366
      else if y mod 400 \<noteq> 0 then 365
      else 366)"

definition DayFromYear :: "int \<Rightarrow> int" where
  "DayFromYear y =
     365 * (y - 1970) + (y - 1969) div 4 - (y - 1901) div 100 + (y - 1601) div 400"

text \<open>
  ECMAScript defines YearFromTime as the largest year whose first day is not after the
  given day.  The executable version estimates the year from the mean length of a
  Gregorian year (146097 days in 400 years) and corrects the estimate by one year;
  lemma \<open>YearFromDay_unique\<close> below shows that it meets the specification.
\<close>

definition YearFromDay :: "int \<Rightarrow> int" where
  "YearFromDay d =
     (let y = 1970 + (400 * d) div 146097
      in if d < DayFromYear y then y - 1
         else if DayFromYear (y + 1) \<le> d then y + 1
         else y)"

definition InLeapYear :: "int \<Rightarrow> bool" where
  "InLeapYear d = (DaysInYear (YearFromDay d) = 366)"

definition DayWithinYear :: "int \<Rightarrow> int" where
  "DayWithinYear d = d - DayFromYear (YearFromDay d)"

text \<open>Number of days of a year before the first day of month \<open>m\<close> (0 = January).\<close>

definition monthStart :: "bool \<Rightarrow> int \<Rightarrow> int" where
  "monthStart leap m =
     (let l = (if leap then 1 else 0)
      in if m = 0 then 0
         else if m = 1 then 31
         else if m = 2 then 59 + l
         else if m = 3 then 90 + l
         else if m = 4 then 120 + l
         else if m = 5 then 151 + l
         else if m = 6 then 181 + l
         else if m = 7 then 212 + l
         else if m = 8 then 243 + l
         else if m = 9 then 273 + l
         else if m = 10 then 304 + l
         else 334 + l)"

text \<open>The month (0 = January) of the day number \<open>w\<close> within a year.\<close>

definition monthOfDayInYear :: "bool \<Rightarrow> int \<Rightarrow> int" where
  "monthOfDayInYear leap w =
     (let l = (if leap then 1 else 0)
      in if w < 31 then 0
         else if w < 59 + l then 1
         else if w < 90 + l then 2
         else if w < 120 + l then 3
         else if w < 151 + l then 4
         else if w < 181 + l then 5
         else if w < 212 + l then 6
         else if w < 243 + l then 7
         else if w < 273 + l then 8
         else if w < 304 + l then 9
         else if w < 334 + l then 10
         else 11)"

definition MonthFromDay :: "int \<Rightarrow> int" where
  "MonthFromDay d = monthOfDayInYear (InLeapYear d) (DayWithinYear d)"

definition DateFromDay :: "int \<Rightarrow> int" where
  "DateFromDay d = DayWithinYear d - monthStart (InLeapYear d) (MonthFromDay d) + 1"

definition WeekDay :: "int \<Rightarrow> int" where
  "WeekDay d = (d + 4) mod 7"

definition MakeDay :: "int \<Rightarrow> int \<Rightarrow> int \<Rightarrow> int" where
  "MakeDay y m dt =
     (let ym = y + m div 12; mn = m mod 12
      in DayFromYear ym + monthStart (DaysInYear ym = 366) mn + dt - 1)"

definition MakeFullYear :: "int \<Rightarrow> int" where
  "MakeFullYear y = (if 0 \<le> y \<and> y \<le> 99 then 1900 + y else y)"


subsection \<open>Local time\<close>

text \<open>
  Methods such as \<^verbatim>\<open>getFullYear\<close>, \<^verbatim>\<open>getDay\<close>, \<^verbatim>\<open>setDate\<close> and the constructor
  \<^verbatim>\<open>new Date(y, m, d)\<close> work in the local time zone of the process.  The zone is a
  parameter \<open>tz\<close> of the model: a constant offset in minutes east of UTC (0 for UTC, 540
  for Tokyo, -300 for Bogota, and for New York in winter).  A zone with daylight saving
  is described only over a stretch of time in which its offset stays the same: across a
  change of the offset \<^verbatim>\<open>setDate(getDate() + 1)\<close> advances by 23 or 25 hours instead of
  24, which the model does not represent.  Every statement below that is universal in
  \<open>tz\<close> ranges over constant offsets; it says nothing about a week or a quarter in
  which the clocks of the zone change.
\<close>

definition valid_tz :: "int \<Rightarrow> bool" where
  "valid_tz tz \<longleftrightarrow> - 720 \<le> tz \<and> tz \<le> 840"

definition LocalTime :: "int \<Rightarrow> int \<Rightarrow> int" where
  "LocalTime tz t = t + tz * 60000"

definition UTCTime :: "int \<Rightarrow> int \<Rightarrow> int" where
  "UTCTime tz t = t - tz * 60000"

text \<open>\<^verbatim>\<open>Date.UTC(y, m, d)\<close> and \<^verbatim>\<open>new Date(y, m, d)\<close>.\<close>

definition Date_UTC :: "int \<Rightarrow> int \<Rightarrow> int \<Rightarrow> int" where
  "Date_UTC y m dt = MakeDay (MakeFullYear y) m dt * msPerDay"

definition Date_local :: "int \<Rightarrow> int \<Rightarrow> int \<Rightarrow> int \<Rightarrow> int" where
  "Date_local tz y m dt = UTCTime tz (MakeDay (MakeFullYear y) m dt * msPerDay)"

definition getUTCFullYear :: "int \<Rightarrow> int" where
  "getUTCFullYear t = YearFromDay (Day t)"

definition getUTCDate :: "int \<Rightarrow> int" where
  "getUTCDate t = DateFromDay (Day t)"

definition getUTCDay :: "int \<Rightarrow> int" where
  "getUTCDay t = WeekDay (Day t)"

definition setUTCDate :: "int \<Rightarrow> int \<Rightarrow> int" where
  "setUTCDate t dt =
     MakeDay (YearFromDay (Day t)) (MonthFromDay (Day t)) dt * msPerDay + TimeWithinDay t"

definition getFullYear :: "int \<Rightarrow> int \<Rightarrow> int" where
  "getFullYear tz t = YearFromDay (Day (LocalTime tz t))"

definition getMonth :: "int \<Rightarrow> int \<Rightarrow> int" where
  "getMonth tz t = MonthFromDay (Day (LocalTime tz t))"

definition getDate :: "int \<Rightarrow> int \<Rightarrow> int" where
  "getDate tz t = DateFromDay (Day (LocalTime tz t))"

definition getDay :: "int \<Rightarrow> int \<Rightarrow> int" where
  "getDay tz t = WeekDay (Day (LocalTime tz t))"

definition setDate :: "int \<Rightarrow> int \<Rightarrow> int \<Rightarrow> int" where
  "setDate tz t dt =
     (let lt = LocalTime tz t
      in UTCTime tz (MakeDay (YearFromDay (Day lt)) (MonthFromDay (Day lt)) dt * msPerDay
                     + TimeWithinDay lt))"

subsection \<open>ISO date strings\<close>

definition digitChar :: "int \<Rightarrow> char" where
  "digitChar n = ''0123456789'' ! nat n"

definition pad2 :: "int \<Rightarrow> string" where
  "pad2 n = [digitChar (n div 10 mod 10), digitChar (n mod 10)]"

definition pad4 :: "int \<Rightarrow> string" where
  "pad4 n = [digitChar (n div 1000 mod 10), digitChar (n div 100 mod 10),
             digitChar (n div 10 mod 10), digitChar (n mod 10)]"

definition pad6 :: "int \<Rightarrow> string" where
  "pad6 n = [digitChar (n div 100000 mod 10), digitChar (n div 10000 mod 10),
             digitChar (n div 1000 mod 10), digitChar (n div 100 mod 10),
             digitChar (n div 10 mod 10), digitChar (n mod 10)]"

text \<open>
  The year of \<^verbatim>\<open>toISOString\<close>: four digits for the years 0 to 9999, otherwise a sign
  and six digits.
\<close>

definition isoYear :: "int \<Rightarrow> string" where
  "isoYear y =
     (if 0 \<le> y \<and> y \<le> 9999 then pad4 y
      else (if y < 0 then ''-'' else ''+'') @ pad6 \<bar>y\<bar>)"

text \<open>
  \<^verbatim>\<open>toISODate(date) = date.toISOString().split("T")[0]\<close>: the part of the ISO string
  before the \<^verbatim>\<open>T\<close>, which is the UTC calendar date.
\<close>

definition toISODate :: "int \<Rightarrow> string" where
  "toISODate t =
     (let d = Day t
      in isoYear (YearFromDay d) @ ''-'' @ pad2 (MonthFromDay d + 1) @ ''-''
         @ pad2 (DateFromDay d))"

text \<open>
  The relational operators of JavaScript on strings compare the code units at the first
  position where the strings differ; a proper prefix is smaller.  \<^verbatim>\<open>a >= b\<close> is the
  negation of \<^verbatim>\<open>a < b\<close>.
\<close>

fun str_lt :: "string \<Rightarrow> string \<Rightarrow> bool" where
  "str_lt [] [] = False"
| "str_lt [] (y # ys) = True"
| "str_lt (x # xs) [] = False"
| "str_lt (x # xs) (y # ys) =
     (if x = y then str_lt xs ys else (of_char x :: nat) < of_char y)"

definition str_ge :: "string \<Rightarrow> string \<Rightarrow> bool" where
  "str_ge a b = (\<not> str_lt a b)"

definition str_le :: "string \<Rightarrow> string \<Rightarrow> bool" where
  "str_le a b = (\<not> str_lt b a)"

section \<open>Calendar arithmetic (\<^verbatim>\<open>date-utils.ts\<close>)\<close>

text \<open>Ceiling of the quotient \<open>a / b\<close> for positive \<open>b\<close>.\<close>

definition ceil_div :: "int \<Rightarrow> int \<Rightarrow> int" where
  "ceil_div a b = - ((- a) div b)"

text \<open>
  \<^verbatim>\<open>getWeekNumber\<close>: the local calendar date is rebuilt as a UTC midnight, moved to the
  Thursday of its week, and the week number is
  \<^verbatim>\<open>Math.ceil(((d - yearStart) / 86400000 + 1) / 7)\<close>.  Both time values are whole
  days, so the inner quotient is an integer and the result is the ceiling of the exact
  quotient \<open>(d - yearStart + msPerDay) / (7 * msPerDay)\<close>.
\<close>

definition getWeekNumber :: "int \<Rightarrow> int \<Rightarrow> int" where
  "getWeekNumber tz date' =
     (let d0 = Date_UTC (getFullYear tz date') (getMonth tz date') (getDate tz date');
          dayNum = (if getUTCDay d0 = 0 then 7 else getUTCDay d0);
          d = setUTCDate d0 (getUTCDate d0 + 4 - dayNum);
          yearStart = Date_UTC (getUTCFullYear d) 0 1
      in ceil_div (d - yearStart + msPerDay) (7 * msPerDay))"

text \<open>\<^verbatim>\<open>getWeekBounds\<close> returns the pair \<open>(start, end)\<close>.\<close>

definition getWeekBounds :: "int \<Rightarrow> int \<Rightarrow> int \<times> int" where
  "getWeekBounds year weekNumber =
     (let jan4 = Date_UTC year 0 4;
          jan4Day = (if getUTCDay jan4 = 0 then 7 else getUTCDay jan4);
          weekStart = setUTCDate jan4 (getUTCDate jan4 - jan4Day + 1 + (weekNumber - 1) * 7);
          weekEnd = setUTCDate weekStart (getUTCDate weekStart + 6)
      in (weekStart, weekEnd))"

definition getQuarter :: "int \<Rightarrow> int \<Rightarrow> int" where
  "getQuarter tz date' = getMonth tz date' div 3 + 1"

definition getMondayOfWeek :: "int \<Rightarrow> int \<Rightarrow> int" where
  "getMondayOfWeek year weekNumber = fst (getWeekBounds year weekNumber)"

text \<open>\<^verbatim>\<open>getQuarterForWeek\<close> returns the pair \<open>(year, quarter)\<close>.\<close>

definition getQuarterForWeek :: "int \<Rightarrow> int \<Rightarrow> int \<Rightarrow> int \<times> int" where
  "getQuarterForWeek tz year weekNumber =
     (let (start, end') = getWeekBounds year weekNumber;
          jan1 = Date_local tz year 0 1
      in if start \<le> jan1 \<and> jan1 \<le> end' then (year, 1)
         else (let monday = start;
                   mondayYear = getFullYear tz monday;
                   mondayQuarter = getQuarter tz monday
               in (mondayYear, mondayQuarter)))"

text \<open>
  \<^verbatim>\<open>getWeeksInQuarter\<close>: the loop over the week numbers 1 to 53 pushes the numbers that
  pass the test \<open>belongsToQuarter\<close> (the condition of the \<^verbatim>\<open>if\<close> in the loop body),
  \<^verbatim>\<open>unshift(53)\<close> puts 53 in front, and the result is sorted with the comparator
  \<^verbatim>\<open>(a, b) => a - b\<close>.
\<close>

definition belongsToQuarter :: "int \<Rightarrow> int \<Rightarrow> int \<Rightarrow> int \<Rightarrow> bool" where
  "belongsToQuarter tz year quarter weekNumber =
     (let weekQuarter = getQuarterForWeek tz year weekNumber
      in fst weekQuarter = year \<and> snd weekQuarter = quarter)"

definition getWeeksInQuarter :: "int \<Rightarrow> int \<Rightarrow> int \<Rightarrow> int list" where
  "getWeeksInQuarter tz year quarter =
     (let weeks = filter (belongsToQuarter tz year quarter) [1..53];
          prevYearWeek53 = getQuarterForWeek tz (year - 1) 53;
          weeks' = (if quarter = 1 \<and> fst prevYearWeek53 = year \<and> snd prevYearWeek53 = 1
                    then 53 # weeks else weeks)
      in sort weeks')"

definition isWeekday :: "int \<Rightarrow> int \<Rightarrow> bool" where
  "isWeekday tz date' = (let day = getDay tz date' in 1 \<le> day \<and> day \<le> 5)"

text \<open>
  The \<^verbatim>\<open>while (current <= end)\<close> loop of \<^verbatim>\<open>getWeekdays\<close>, with the list built so far
  as an argument.
\<close>

function getWeekdays_loop :: "int \<Rightarrow> int \<Rightarrow> int \<Rightarrow> int list \<Rightarrow> int list" where
  "getWeekdays_loop tz current end' weekdays =
     (if current \<le> end'
      then getWeekdays_loop tz (setDate tz current (getDate tz current + 1)) end'
             (if isWeekday tz current then weekdays @ [current] else weekdays)
      else weekdays)"
  by pat_completeness auto
termination
proof (relation "measure (\<lambda>(tz, current, end', weekdays). nat (end' - current + 1))")
  show "wf (measure (\<lambda>(tz, current, end', weekdays). nat (end' - current + 1)))"
    by simp
next
  fix tz current end' :: int and weekdays :: "int list"
  assume le: "current \<le> end'"
  define lt where "lt = LocalTime tz current"
  have "0 \<le> MonthFromDay (Day lt)" "MonthFromDay (Day lt) < 12"
    by (simp_all add: MonthFromDay_def monthOfDayInYear_def Let_def)
  then have md: "MonthFromDay (Day lt) div 12 = 0"
      "MonthFromDay (Day lt) mod 12 = MonthFromDay (Day lt)"
    by simp_all
  have "MakeDay (YearFromDay (Day lt)) (MonthFromDay (Day lt)) (DateFromDay (Day lt) + 1)
      = Day lt + 1"
    by (simp add: MakeDay_def Let_def md DateFromDay_def DayWithinYear_def InLeapYear_def)
  then have "setDate tz current (getDate tz current + 1) =
      UTCTime tz ((Day lt + 1) * msPerDay + TimeWithinDay lt)"
    by (simp add: setDate_def getDate_def Let_def lt_def)
  also have "\<dots> = UTCTime tz (lt + msPerDay)"
    by (simp add: Day_def TimeWithinDay_def algebra_simps)
  also have "\<dots> = current + msPerDay"
    by (simp add: UTCTime_def lt_def LocalTime_def)
  finally have "setDate tz current (getDate tz current + 1) = current + msPerDay" .
  then show "((tz, setDate tz current (getDate tz current + 1), end',
        if isWeekday tz current then weekdays @ [current] else weekdays),
       tz, current, end', weekdays)
      \<in> measure (\<lambda>(tz, current, end', weekdays). nat (end' - current + 1))"
    using le by (simp add: msPerDay_def)
qed

declare getWeekdays_loop.simps [simp del]

definition getWeekdays :: "int \<Rightarrow> int \<Rightarrow> int \<Rightarrow> int list" where
  "getWeekdays tz year weekNumber =
     (let (start, end') = getWeekBounds year weekNumber
      in getWeekdays_loop tz start end' [])"

section \<open>Compliance calculation (\<^verbatim>\<open>compliance.ts\<close>)\<close>

text \<open>
  \<^verbatim>\<open>new Map(loggedDays.map((d) => [d.date, d]))\<close> inserts the entries in list order, a
  later entry replacing an earlier one with the same key.
\<close>

definition loggedMap_of :: "DayEntry list \<Rightarrow> (string \<rightharpoonup> DayEntry)" where
  "loggedMap_of loggedDays = foldl (\<lambda>m d. m(date d \<mapsto> d)) Map.empty loggedDays"

text \<open>
  The callbacks of \<^verbatim>\<open>filter\<close> and \<^verbatim>\<open>map\<close> in \<^verbatim>\<open>calculateWeekSummary\<close> are closures
  over the local constants; they are named here, with the captured constants as their
  first arguments.
\<close>

definition inWeek :: "string \<Rightarrow> string \<Rightarrow> DayEntry \<Rightarrow> bool" where
  "inWeek startDate endDate entry =
     (str_ge (date entry) startDate \<and> str_le (date entry) endDate)"

definition dayFor :: "(string \<rightharpoonup> DayEntry) \<Rightarrow> int \<Rightarrow> DayEntry" where
  "dayFor loggedMap date' =
     (let dateStr = toISODate date'
      in case loggedMap dateStr of
           Some e \<Rightarrow> e
         | None \<Rightarrow> \<lparr>date = dateStr, location = Home, notes' = None\<rparr>)"

definition isOffice :: "DayEntry \<Rightarrow> bool" where
  "isOffice d = (location d = Office)"

definition calculateWeekSummary ::
  "int \<Rightarrow> int \<Rightarrow> int \<Rightarrow> ComplianceConfig \<Rightarrow> DayEntry list \<Rightarrow> WeekSummary" where
  "calculateWeekSummary tz year weekNumber config allEntries =
     (let bounds = getWeekBounds year weekNumber;
          startDate = toISODate (fst bounds);
          endDate = toISODate (snd bounds);
          weekdays = getWeekdays tz year weekNumber;
          loggedDays = filter (inWeek startDate endDate) allEntries;
          loggedMap = loggedMap_of loggedDays;
          days = map (dayFor loggedMap) weekdays;
          officeDays = int (length (filter isOffice days));
          isCompliant = (officeDays \<ge> requiredOfficeDaysPerWeek config)
      in \<lparr>ws_weekNumber = weekNumber, ws_year = year, ws_startDate = startDate,
          ws_endDate = endDate, ws_officeDays = officeDays, ws_isCompliant = isCompliant,
          ws_days = days\<rparr>)"

text \<open>The callback of \<^verbatim>\<open>weekNumbers.map\<close> in \<^verbatim>\<open>calculateQuarterSummary\<close>.\<close>

definition summarizeWeek ::
  "int \<Rightarrow> int \<Rightarrow> ComplianceConfig \<Rightarrow> DayEntry list \<Rightarrow> int \<Rightarrow> WeekSummary" where
  "summarizeWeek tz year config allEntries weekNumber =
     calculateWeekSummary tz year weekNumber config allEntries"

definition calculateQuarterSummary ::
  "int \<Rightarrow> int \<Rightarrow> int \<Rightarrow> ComplianceConfig \<Rightarrow> DayEntry list \<Rightarrow> QuarterSummary" where
  "calculateQuarterSummary tz year quarter config allEntries =
     (let weekNumbers = getWeeksInQuarter tz year quarter;
          weeks = map (summarizeWeek tz year config allEntries) weekNumbers;
          compliantWeeks = int (length (filter ws_isCompliant weeks));
          totalWeeks = int (length weeks);
          status = (if compliantWeeks \<ge> requiredCompliantWeeksPerQuarter config then Compliant
                    else if compliantWeeks \<ge> warningThresholdWeeks config then Warning
                    else Danger)
      in \<lparr>qs_quarter = quarter, qs_year = year, qs_compliantWeeks = compliantWeeks,
          qs_totalWeeks = totalWeeks, qs_status = status, qs_weeks = weeks\<rparr>)"

definition quarterSummaryOf ::
  "int \<Rightarrow> int \<Rightarrow> ComplianceConfig \<Rightarrow> DayEntry list \<Rightarrow> int \<Rightarrow> QuarterSummary" where
  "quarterSummaryOf tz year config allEntries q =
     calculateQuarterSummary tz year q config allEntries"

definition calculateYearSummary ::
  "int \<Rightarrow> int \<Rightarrow> ComplianceConfig \<Rightarrow> DayEntry list \<Rightarrow> QuarterSummary list" where
  "calculateYearSummary tz year config allEntries =
     map (quarterSummaryOf tz year config allEntries) [1, 2, 3, 4]"

section \<open>Input domain and example data\<close>

text \<open>
  The functions take the year as a JavaScript number.  \<^verbatim>\<open>Date.UTC\<close> and the \<^verbatim>\<open>Date\<close>
  constructor read a year from 0 to 99 as 1900 + year, and the ISO string of a date has
  a four-digit year only for the years 0 to 9999.  A year is called valid when the weeks
  1 to 53 computed for it, which can reach into the neighbouring years, avoid both
  effects.
\<close>

definition valid_year :: "int \<Rightarrow> bool" where
  "valid_year year \<longleftrightarrow> 100 < year \<and> year < 9999"

text \<open>\<^verbatim>\<open>DEFAULT_CONFIG\<close> of the storage layer, the configuration of the examples.\<close>

definition DEFAULT_CONFIG :: ComplianceConfig where
  "DEFAULT_CONFIG = \<lparr>requiredOfficeDaysPerWeek = 2, requiredCompliantWeeksPerQuarter = 8,
     warningThresholdWeeks = 7\<rparr>"

definition officeDay :: "string \<Rightarrow> DayEntry" where
  "officeDay d = \<lparr>date = d, location = Office, notes' = None\<rparr>"

text \<open>
  Example data: office attendance on the Monday and the Tuesday of each of the weeks 1
  to \<open>k\<close> of 2025.
\<close>

definition homeDay :: "string \<Rightarrow> DayEntry" where
  "homeDay d = \<lparr>date = d, location = Home, notes' = None\<rparr>"

definition exampleWeek :: "int \<Rightarrow> DayEntry list" where
  "exampleWeek w =
     (let s = fst (getWeekBounds 2025 w)
      in [officeDay (toISODate s), officeDay (toISODate (s + msPerDay))])"

definition exampleEntries :: "int \<Rightarrow> DayEntry list" where
  "exampleEntries k = concat (map exampleWeek [1..k])"

section \<open>Properties of the Date model\<close>

subsection \<open>Years\<close>

lemma div4_bounds: "4 * ((a::int) div 4) \<le> a \<and> a < 4 * (a div 4) + 4" by presburger
lemma div100_bounds: "100 * ((a::int) div 100) \<le> a \<and> a < 100 * (a div 100) + 100" by presburger
lemma div400_bounds: "400 * ((a::int) div 400) \<le> a \<and> a < 400 * (a div 400) + 400" by presburger
lemma div146097_bounds: "146097 * ((a::int) div 146097) \<le> a \<and> a < 146097 * (a div 146097) + 146097" by presburger

lemma DayFromYear_below: "DayFromYear (1969 + (400 * d) div 146097) \<le> d"
proof -
  define e where "e = (400 * d) div 146097"
  define q1 where "q1 = e div 4"
  define q2 where "q2 = (e + 68) div 100"
  define q3 where "q3 = (e + 368) div 400"
  have E: "146097 * e \<le> 400 * d" "400 * d < 146097 * e + 146097"
    using div146097_bounds[of "400 * d"] by (simp_all add: e_def)
  have Q1: "4 * q1 \<le> e" "e < 4 * q1 + 4" using div4_bounds[of e] by (simp_all add: q1_def)
  have Q2: "100 * q2 \<le> e + 68" "e + 68 < 100 * q2 + 100" using div100_bounds[of "e + 68"] by (simp_all add: q2_def)
  have Q3: "400 * q3 \<le> e + 368" "e + 368 < 400 * q3 + 400" using div400_bounds[of "e + 368"] by (simp_all add: q3_def)
  have "DayFromYear (1969 + e) = 365 * (e - 1) + q1 - q2 + q3"
    by (simp add: DayFromYear_def q1_def q2_def q3_def add.commute)
  moreover have "365 * (e - 1) + q1 - q2 + q3 \<le> d"
    using E Q1 Q2 Q3 by (simp add: algebra_simps)
  ultimately show ?thesis by (simp add: e_def)
qed

lemma DayFromYear_above: "d < DayFromYear (1972 + (400 * d) div 146097)"
proof -
  define e where "e = (400 * d) div 146097"
  define q1 where "q1 = (e + 3) div 4"
  define q2 where "q2 = (e + 71) div 100"
  define q3 where "q3 = (e + 371) div 400"
  have E: "146097 * e \<le> 400 * d" "400 * d < 146097 * e + 146097"
    using div146097_bounds[of "400 * d"] by (simp_all add: e_def)
  have Q1: "4 * q1 \<le> e + 3" "e + 3 < 4 * q1 + 4" using div4_bounds[of "e + 3"] by (simp_all add: q1_def)
  have Q2: "100 * q2 \<le> e + 71" "e + 71 < 100 * q2 + 100" using div100_bounds[of "e + 71"] by (simp_all add: q2_def)
  have Q3: "400 * q3 \<le> e + 371" "e + 371 < 400 * q3 + 400" using div400_bounds[of "e + 371"] by (simp_all add: q3_def)
  have "DayFromYear (1972 + e) = 365 * (e + 2) + q1 - q2 + q3"
    by (simp add: DayFromYear_def q1_def q2_def q3_def add.commute)
  moreover have "d < 365 * (e + 2) + q1 - q2 + q3"
    using E Q1 Q2 Q3 by (simp add: algebra_simps)
  ultimately show ?thesis by (simp add: e_def)
qed

lemma YearFromDay_bounds:
  "DayFromYear (YearFromDay d) \<le> d \<and> d < DayFromYear (YearFromDay d + 1)"
proof -
  define e where "e = (400 * d) div 146097"
  have lo: "DayFromYear (1970 + e - 1) \<le> d"
    using DayFromYear_below[of d] by (simp add: e_def)
  have hi: "d < DayFromYear (1970 + e + 1 + 1)"
    using DayFromYear_above[of d] by (simp add: e_def)
  have Y: "YearFromDay d =
      (if d < DayFromYear (1970 + e) then 1970 + e - 1
       else if DayFromYear (1970 + e + 1) \<le> d then 1970 + e + 1 else 1970 + e)"
    by (simp add: YearFromDay_def Let_def e_def)
  show ?thesis
  proof (cases "d < DayFromYear (1970 + e)")
    case True
    then show ?thesis using lo Y by simp
  next
    case False
    note F = this
    show ?thesis
    proof (cases "DayFromYear (1970 + e + 1) \<le> d")
      case True
      then show ?thesis using F hi Y by simp
    next
      case False
      then show ?thesis using F Y by simp
    qed
  qed
qed

lemma div_inc:
  assumes "0 < (n::int)"
  shows "(a + 1) div n = a div n + (if (a + 1) mod n = 0 then 1 else 0)"
proof -
  define q where "q = a div n"
  define r where "r = a mod n"
  have a: "a = n * q + r" by (simp add: q_def r_def)
  have r: "0 \<le> r" "r < n" using assms by (simp_all add: r_def)
  show ?thesis
  proof (cases "r + 1 = n")
    case True
    then have "a + 1 = n * (q + 1) + 0" using a by (simp add: algebra_simps)
    then have "(a + 1) div n = q + 1" "(a + 1) mod n = 0"
      using assms int_div_pos_eq[of "a + 1" n "q + 1" 0] int_mod_pos_eq[of "a + 1" n "q + 1" 0] by simp_all
    then show ?thesis by (simp add: q_def)
  next
    case False
    then have lt: "r + 1 < n" using r by linarith
    have "a + 1 = n * q + (r + 1)" using a by simp
    then have "(a + 1) div n = q" "(a + 1) mod n = r + 1"
      using lt r int_div_pos_eq[of "a + 1" n q "r + 1"] int_mod_pos_eq[of "a + 1" n q "r + 1"] by simp_all
    then show ?thesis using r by (simp add: q_def)
  qed
qed

lemma step_arith:
  "(p100 \<longrightarrow> p4) \<Longrightarrow> (p400 \<longrightarrow> p100) \<Longrightarrow>
   365 * (y - 1969) + (A + (if p4 then 1 else 0)) - (B + (if p100 then 1 else 0))
     + (C + (if p400 then 1 else 0)) =
   365 * (y - 1970) + A - B + C
     + (if \<not> p4 then 365 else if \<not> p100 then 366 else if \<not> p400 then 365 else (366::int))"
  by (cases p4; cases p100; cases p400; simp)

lemma mod_shift: "((y::int) + k * n) mod n = 0 \<longleftrightarrow> y mod n = 0"
  by (simp only: mod_mult_self1)

lemma inc4: "((y::int) - 1968) div 4 = (y - 1969) div 4 + (if y mod 4 = 0 then 1 else 0)"
proof -
  have e: "y - 1969 + 1 = y - 1968" "y - 1968 = y + (- 492) * 4" by simp_all
  have "(y - 1968) mod 4 = 0 \<longleftrightarrow> y mod 4 = 0"
    unfolding e(2) by (rule mod_shift)
  then show ?thesis using div_inc[of 4 "y - 1969"] unfolding e(1) by simp
qed

lemma inc100: "((y::int) - 1900) div 100 = (y - 1901) div 100 + (if y mod 100 = 0 then 1 else 0)"
proof -
  have e: "y - 1901 + 1 = y - 1900" "y - 1900 = y + (- 19) * 100" by simp_all
  have "(y - 1900) mod 100 = 0 \<longleftrightarrow> y mod 100 = 0"
    unfolding e(2) by (rule mod_shift)
  then show ?thesis using div_inc[of 100 "y - 1901"] unfolding e(1) by simp
qed

lemma inc400: "((y::int) - 1600) div 400 = (y - 1601) div 400 + (if y mod 400 = 0 then 1 else 0)"
proof -
  have e: "y - 1601 + 1 = y - 1600" "y - 1600 = y + (- 4) * 400" by simp_all
  have "(y - 1600) mod 400 = 0 \<longleftrightarrow> y mod 400 = 0"
    unfolding e(2) by (rule mod_shift)
  then show ?thesis using div_inc[of 400 "y - 1601"] unfolding e(1) by simp
qed

lemma DayFromYear_step: "DayFromYear (y + 1) = DayFromYear y + DaysInYear y"
proof -
  have a: "y mod 100 = 0 \<longrightarrow> y mod 4 = 0" by force
  have b: "y mod 400 = 0 \<longrightarrow> y mod 100 = 0" by force
  have "DayFromYear (y + 1) =
      365 * (y - 1969) + (y - 1968) div 4 - (y - 1900) div 100 + (y - 1600) div 400"
    by (simp add: DayFromYear_def)
  also have "\<dots> = 365 * (y - 1969)
        + ((y - 1969) div 4 + (if y mod 4 = 0 then 1 else 0))
        - ((y - 1901) div 100 + (if y mod 100 = 0 then 1 else 0))
        + ((y - 1601) div 400 + (if y mod 400 = 0 then 1 else 0))"
    by (simp only: inc4 inc100 inc400)
  also have "\<dots> = 365 * (y - 1970) + (y - 1969) div 4 - (y - 1901) div 100 + (y - 1601) div 400
        + (if \<not> y mod 4 = 0 then 365 else if \<not> y mod 100 = 0 then 366
           else if \<not> y mod 400 = 0 then 365 else 366)"
    by (rule step_arith[OF a b])
  finally show ?thesis
    by (simp only: DayFromYear_def DaysInYear_def)
qed

lemma DaysInYear_range: "DaysInYear y = 365 \<or> DaysInYear y = 366"
  by (simp add: DaysInYear_def)

lemma DayFromYear_strict_mono:
  assumes "y < y'"
  shows "DayFromYear y < DayFromYear y'"
proof -
  define a1 where "a1 = (y - 1969) div 4"
  define a2 where "a2 = (y - 1901) div 100"
  define a3 where "a3 = (y - 1601) div 400"
  define b1 where "b1 = (y' - 1969) div 4"
  define b2 where "b2 = (y' - 1901) div 100"
  define b3 where "b3 = (y' - 1601) div 400"
  have A2: "100 * a2 \<le> y - 1901" "y - 1901 < 100 * a2 + 100" using div100_bounds[of "y - 1901"] by (simp_all add: a2_def)
  have B2: "100 * b2 \<le> y' - 1901" "y' - 1901 < 100 * b2 + 100" using div100_bounds[of "y' - 1901"] by (simp_all add: b2_def)
  have "a1 \<le> b1" unfolding a1_def b1_def using assms by (intro zdiv_mono1) simp_all
  moreover have "a3 \<le> b3" unfolding a3_def b3_def using assms by (intro zdiv_mono1) simp_all
  moreover have "100 * b2 < 100 * a2 + (y' - y) + 100" using A2 B2 by (simp add: algebra_simps)
  ultimately have "365 * (y - 1970) + a1 - a2 + a3 < 365 * (y' - 1970) + b1 - b2 + b3"
    using assms by (simp add: algebra_simps)
  then show ?thesis
    by (simp add: DayFromYear_def a1_def a2_def a3_def b1_def b2_def b3_def)
qed

lemma YearFromDay_unique:
  assumes "DayFromYear y \<le> d" and "d < DayFromYear (y + 1)"
  shows "YearFromDay d = y"
proof (rule ccontr)
  assume ne: "YearFromDay d \<noteq> y"
  have B: "DayFromYear (YearFromDay d) \<le> d" "d < DayFromYear (YearFromDay d + 1)"
    using YearFromDay_bounds[of d] by simp_all
  show False
  proof (cases "YearFromDay d < y")
    case True
    then have "YearFromDay d + 1 = y \<or> YearFromDay d + 1 < y" by linarith
    then have "DayFromYear (YearFromDay d + 1) \<le> DayFromYear y"
      using DayFromYear_strict_mono[of "YearFromDay d + 1" y] by auto
    then show False using B assms by linarith
  next
    case False
    then have "y + 1 = YearFromDay d \<or> y + 1 < YearFromDay d" using ne by linarith
    then have "DayFromYear (y + 1) \<le> DayFromYear (YearFromDay d)"
      using DayFromYear_strict_mono[of "y + 1" "YearFromDay d"] by auto
    then show False using B assms by linarith
  qed
qed


lemma DayFromYear_next_ge: "DayFromYear y + 365 \<le> DayFromYear (y + 1)"
  using DaysInYear_range[of y] by (auto simp: DayFromYear_step)

lemma DayFromYear_next_le: "DayFromYear (y + 1) \<le> DayFromYear y + 366"
  using DaysInYear_range[of y] by (auto simp: DayFromYear_step)

lemma DayFromYear_mono: "y \<le> y' \<Longrightarrow> DayFromYear y \<le> DayFromYear y'"
  using DayFromYear_strict_mono[of y y'] by (cases "y = y'") auto

lemma YearFromDay_ge:
  assumes "DayFromYear y \<le> d"
  shows "y \<le> YearFromDay d"
proof (rule ccontr)
  assume "\<not> y \<le> YearFromDay d"
  then have "YearFromDay d + 1 \<le> y" by simp
  then have "DayFromYear (YearFromDay d + 1) \<le> DayFromYear y" by (rule DayFromYear_mono)
  then show False using YearFromDay_bounds[of d] assms by linarith
qed

lemma YearFromDay_le:
  assumes "d < DayFromYear (y + 1)"
  shows "YearFromDay d \<le> y"
proof (rule ccontr)
  assume "\<not> YearFromDay d \<le> y"
  then have "y + 1 \<le> YearFromDay d" by simp
  then have "DayFromYear (y + 1) \<le> DayFromYear (YearFromDay d)" by (rule DayFromYear_mono)
  then show False using YearFromDay_bounds[of d] assms by linarith
qed

lemma MonthFromDay_range: "0 \<le> MonthFromDay d \<and> MonthFromDay d \<le> 11"
  by (simp add: MonthFromDay_def monthOfDayInYear_def Let_def)

lemma MakeDay_fields: "MakeDay (YearFromDay d) (MonthFromDay d) (DateFromDay d + k) = d + k"
proof -
  have "MonthFromDay d div 12 = 0" "MonthFromDay d mod 12 = MonthFromDay d"
    using MonthFromDay_range[of d] by simp_all
  then show ?thesis
    by (simp add: MakeDay_def Let_def DateFromDay_def DayWithinYear_def InLeapYear_def)
qed

lemma Day_TimeWithinDay: "Day t * msPerDay + TimeWithinDay t = t"
  by (simp add: Day_def TimeWithinDay_def)

lemma Day_shift_time: "(Day t + k) * msPerDay + TimeWithinDay t = t + k * msPerDay"
  using Day_TimeWithinDay[of t] by (simp add: algebra_simps)

lemma setUTCDate_shift: "setUTCDate t (getUTCDate t + k) = t + k * msPerDay"
  by (simp add: setUTCDate_def getUTCDate_def MakeDay_fields Day_shift_time)

lemma setDate_shift: "setDate tz t (getDate tz t + k) = t + k * msPerDay"
  by (simp add: setDate_def getDate_def Let_def MakeDay_fields Day_shift_time
      UTCTime_def LocalTime_def)

lemma Day_whole: "Day (k * msPerDay) = k"
  by (simp add: Day_def msPerDay_def)

lemma Day_shift: "Day (t + k * msPerDay) = Day t + k"
  by (simp add: Day_def msPerDay_def)

lemma Day_Date_UTC: "Day (Date_UTC y m dt) = MakeDay (MakeFullYear y) m dt"
  by (simp add: Date_UTC_def Day_whole)

lemma MakeDay_January: "MakeDay y 0 dt = DayFromYear y + dt - 1"
  by (simp add: MakeDay_def monthStart_def)

text \<open>The weekday numbering \<^verbatim>\<open>getUTCDay() || 7\<close> (Monday = 1, ..., Sunday = 7).\<close>

lemma isoDay_range:
  "1 \<le> (if getUTCDay t = 0 then 7 else getUTCDay t) \<and> (if getUTCDay t = 0 then 7 else getUTCDay t) \<le> 7"
  by (simp add: getUTCDay_def WeekDay_def) presburger

lemma getWeekBounds_eq:
  "getWeekBounds year weekNumber =
     (let jan4 = Date_UTC year 0 4;
          jan4Day = (if getUTCDay jan4 = 0 then 7 else getUTCDay jan4);
          start = jan4 + (1 - jan4Day + (weekNumber - 1) * 7) * msPerDay
      in (start, start + 6 * msPerDay))"
proof -
  have a: "getUTCDate t - x + 1 + y = getUTCDate t + (1 - x + y)" for t x y
    by simp
  show ?thesis
    unfolding getWeekBounds_def Let_def a setUTCDate_shift by simp
qed

lemma monday_arith:
  "((x + (1 - (if (x + 4) mod 7 = 0 then 7 else (x + 4) mod 7) + (w - 1) * 7) + 4) mod 7) = (1::int)"
proof -
  define q where "q = (x + 4) div 7"
  define r where "r = (x + 4) mod 7"
  have x: "x + 4 = 7 * q + r" by (simp add: q_def r_def)
  have k: "(1 + 7 * k) mod 7 = (1::int)" for k by simp
  show ?thesis
  proof (cases "r = 0")
    case True
    then have wd: "(if (x + 4) mod 7 = 0 then 7 else (x + 4) mod 7) = 7"
      by (simp add: r_def)
    have e: "x + (1 - 7 + (w - 1) * 7) + 4 = 1 + 7 * (q - 1 + (w - 1))"
      using x True by (simp add: algebra_simps)
    show ?thesis unfolding wd e by (rule k)
  next
    case False
    then have wd: "(if (x + 4) mod 7 = 0 then 7 else (x + 4) mod 7) = r"
      by (simp add: r_def)
    have e: "x + (1 - r + (w - 1) * 7) + 4 = 1 + 7 * (q + (w - 1))"
      using x by (simp add: algebra_simps)
    show ?thesis unfolding wd e by (rule k)
  qed
qed

lemma week_start_Monday: "getUTCDay (fst (getWeekBounds year weekNumber)) = 1"
  unfolding getWeekBounds_eq Let_def fst_conv getUTCDay_def Day_shift WeekDay_def
  by (rule monday_arith)

lemma week_start_whole: "TimeWithinDay (fst (getWeekBounds year weekNumber)) = 0"
  unfolding getWeekBounds_eq Let_def fst_conv
  by (simp add: TimeWithinDay_def Date_UTC_def)

subsection \<open>Equations for evaluation\<close>

text \<open>
  The two equations below, consequences of \<open>setUTCDate_shift\<close> and \<open>setDate_shift\<close>,
  replace the defining equations when a term is evaluated.
\<close>

lemma getWeekBounds_code [code]:
  "getWeekBounds year weekNumber =
     (let jan4 = Date_UTC year 0 4;
          jan4Day = (if getUTCDay jan4 = 0 then 7 else getUTCDay jan4);
          start = jan4 + (1 - jan4Day + (weekNumber - 1) * 7) * msPerDay
      in (start, start + 6 * msPerDay))"
  by (rule getWeekBounds_eq)
lemma getWeekdays_loop_code [code]:
  "getWeekdays_loop tz current end' weekdays =
     (if current \<le> end'
      then getWeekdays_loop tz (current + msPerDay) end'
             (if isWeekday tz current then weekdays @ [current] else weekdays)
      else weekdays)"
  using getWeekdays_loop.simps[of tz current end' weekdays] setDate_shift[of tz current 1]
  by simp

subsection \<open>Local calendar days and the fields of January\<close>

lemma local_Day:
  assumes "valid_tz tz"
  shows "Day (LocalTime tz (k * msPerDay)) = (if tz < 0 then k - 1 else k)"
proof (cases "tz < 0")
  case True
  have "k * msPerDay + tz * 60000 = msPerDay * (k - 1) + (msPerDay + tz * 60000)"
    by (simp add: algebra_simps)
  moreover have "0 \<le> msPerDay + tz * 60000" "msPerDay + tz * 60000 < msPerDay"
    using assms True by (simp_all add: valid_tz_def msPerDay_def)
  ultimately have "(k * msPerDay + tz * 60000) div msPerDay = k - 1"
    by (rule int_div_pos_eq)
  then show ?thesis using True by (simp add: Day_def LocalTime_def)
next
  case False
  have "k * msPerDay + tz * 60000 = msPerDay * k + tz * 60000"
    by (simp add: algebra_simps)
  moreover have "0 \<le> tz * 60000" "tz * 60000 < msPerDay"
    using assms False by (simp_all add: valid_tz_def msPerDay_def)
  ultimately have "(k * msPerDay + tz * 60000) div msPerDay = k"
    by (rule int_div_pos_eq)
  then show ?thesis using False by (simp add: Day_def LocalTime_def)
qed

lemma bounds_2025_1: "getWeekBounds 2025 1 = (20087 * msPerDay, 20093 * msPerDay)"
  by code_simp

lemma jan1_2025: "Date_local tz 2025 0 1 = 20089 * msPerDay - tz * 60000"
  by (simp add: Date_local_def UTCTime_def MakeDay_January MakeFullYear_def DayFromYear_def)

lemma ymd_20086: "YearFromDay 20086 = 2024 \<and> MonthFromDay 20086 = 11 \<and> DateFromDay 20086 = 29"
  by code_simp
lemma ymd_20087: "YearFromDay 20087 = 2024 \<and> MonthFromDay 20087 = 11 \<and> DateFromDay 20087 = 30"
  by code_simp

lemma YearFromDay_in_year:
  assumes "0 \<le> k" "k < 365"
  shows "YearFromDay (DayFromYear y + k) = y"
  using assms DayFromYear_next_ge[of y] by (intro YearFromDay_unique) simp_all

lemma January_fields:
  assumes "0 \<le> k" "k < 31"
  shows "YearFromDay (DayFromYear y + k) = y \<and> MonthFromDay (DayFromYear y + k) = 0
         \<and> DateFromDay (DayFromYear y + k) = k + 1"
proof -
  have Y: "YearFromDay (DayFromYear y + k) = y"
    using assms by (intro YearFromDay_in_year) simp_all
  then have W: "DayWithinYear (DayFromYear y + k) = k"
    by (simp add: DayWithinYear_def)
  have M: "MonthFromDay (DayFromYear y + k) = 0"
    using assms by (simp add: MonthFromDay_def monthOfDayInYear_def W)
  show ?thesis using Y M by (simp add: DateFromDay_def W monthStart_def)
qed

lemma MakeFullYear_valid: "valid_year year \<Longrightarrow> MakeFullYear year = year"
  by (simp add: valid_year_def MakeFullYear_def)


subsection \<open>Order of the calendar fields\<close>

lemma DayWithinYear_range:
  "0 \<le> DayWithinYear d \<and> DayWithinYear d < (if InLeapYear d then 366 else 365)"
  using YearFromDay_bounds[of d] DaysInYear_range[of "YearFromDay d"]
  by (auto simp: DayWithinYear_def InLeapYear_def DayFromYear_step)

lemma month_table:
  assumes "0 \<le> w" "w < (if leap then 366 else 365)"
  shows "1 \<le> w - monthStart leap (monthOfDayInYear leap w) + 1
       \<and> w - monthStart leap (monthOfDayInYear leap w) + 1 \<le> 31"
  using assms by (cases leap) (simp_all add: monthOfDayInYear_def monthStart_def)

lemma DateFromDay_range: "1 \<le> DateFromDay d \<and> DateFromDay d \<le> 31"
  using DayWithinYear_range[of d] month_table[of "DayWithinYear d" "InLeapYear d"]
  by (simp add: DateFromDay_def MonthFromDay_def)

lemma YearFromDay_mono: "a \<le> b \<Longrightarrow> YearFromDay a \<le> YearFromDay b"
  using YearFromDay_bounds[of a] by (intro YearFromDay_ge) simp

lemma month_order:
  assumes "w1 < w2"
  shows "monthOfDayInYear leap w1 < monthOfDayInYear leap w2
       \<or> (monthOfDayInYear leap w1 = monthOfDayInYear leap w2
          \<and> w1 - monthStart leap (monthOfDayInYear leap w1)
              < w2 - monthStart leap (monthOfDayInYear leap w2))"
  using assms by (cases leap) (simp_all add: monthOfDayInYear_def monthStart_def)

lemma same_year_order:
  assumes "YearFromDay a = YearFromDay b" "a < b"
  shows "MonthFromDay a < MonthFromDay b
       \<or> (MonthFromDay a = MonthFromDay b \<and> DateFromDay a < DateFromDay b)"
proof -
  have l: "InLeapYear b = InLeapYear a"
    using assms(1) by (simp add: InLeapYear_def)
  have w: "DayWithinYear a < DayWithinYear b"
    using assms by (simp add: DayWithinYear_def)
  show ?thesis
    using month_order[OF w, of "InLeapYear a"]
    by (auto simp add: DateFromDay_def MonthFromDay_def l)
qed

lemma calendar_order:
  assumes "a < b"
  shows "YearFromDay a < YearFromDay b
      \<or> (YearFromDay a = YearFromDay b
         \<and> (MonthFromDay a < MonthFromDay b
            \<or> (MonthFromDay a = MonthFromDay b \<and> DateFromDay a < DateFromDay b)))"
proof (cases "YearFromDay a = YearFromDay b")
  case True
  then show ?thesis using same_year_order[OF True assms] by simp
next
  case False
  then show ?thesis using YearFromDay_mono[of a b] assms by simp
qed


subsection \<open>Order of ISO date strings\<close>

lemma digit_cases:
  assumes "0 \<le> n" "n \<le> 9"
  shows "n \<in> {0, 1, 2, 3, 4, 5, 6, 7, 8, 9 :: int}"
  using assms by simp arith

lemma digitChar_code:
  assumes "0 \<le> n" "n \<le> 9"
  shows "(of_char (digitChar n) :: nat) = nat (48 + n)"
  using digit_cases[OF assms] by (auto simp: digitChar_def)

lemma digitChar_less:
  assumes "0 \<le> a" "a \<le> 9" "0 \<le> b" "b \<le> 9"
  shows "((of_char (digitChar a) :: nat) < of_char (digitChar b)) = (a < b)"
  using assms by (simp add: digitChar_code)

lemma digitChar_eq:
  assumes "0 \<le> a" "a \<le> 9" "0 \<le> b" "b \<le> 9"
  shows "(digitChar a = digitChar b) = (a = b)"
proof
  assume "digitChar a = digitChar b"
  then have "(of_char (digitChar a) :: nat) = of_char (digitChar b)" by simp
  then show "a = b" using assms by (simp add: digitChar_code)
qed simp

lemma str_lt_digit:
  assumes "0 \<le> a" "a \<le> 9" "0 \<le> b" "b \<le> 9"
  shows "str_lt (digitChar a # xs) (digitChar b # ys) = (a < b \<or> (a = b \<and> str_lt xs ys))"
  using assms by (auto simp: digitChar_less digitChar_eq)

lemma two_digits:
  assumes "0 \<le> a0" "a0 \<le> 9" "0 \<le> b0" "b0 \<le> 9"
  shows "(a1 < b1 \<or> (a1 = b1 \<and> (a0 < b0 \<or> (a0 = b0 \<and> R))))
       = (10 * a1 + a0 < 10 * b1 + b0 \<or> (10 * a1 + a0 = 10 * b1 + (b0::int) \<and> R))"
  using assms by auto

lemma div10_digit: "0 \<le> n \<Longrightarrow> n < 100 \<Longrightarrow> 0 \<le> n div 10 \<and> n div 10 \<le> (9::int)"
  by auto

lemma str_lt_pad2:
  assumes "0 \<le> a" "a < 100" "0 \<le> b" "b < 100"
  shows "str_lt (pad2 a @ xs) (pad2 b @ ys) = (a < b \<or> (a = b \<and> str_lt xs ys))"
proof -
  have a: "0 \<le> a div 10" "a div 10 \<le> 9" "a div 10 mod 10 = a div 10" "0 \<le> a mod 10" "a mod 10 \<le> 9"
    using assms by auto
  have b: "0 \<le> b div 10" "b div 10 \<le> 9" "b div 10 mod 10 = b div 10" "0 \<le> b mod 10" "b mod 10 \<le> 9"
    using assms by auto
  have "str_lt (pad2 a @ xs) (pad2 b @ ys)
      = (a div 10 < b div 10 \<or> (a div 10 = b div 10 \<and>
          (a mod 10 < b mod 10 \<or> (a mod 10 = b mod 10 \<and> str_lt xs ys))))"
    unfolding pad2_def a(3) b(3) append_Cons append_Nil
    by (simp only: str_lt_digit[OF a(1,2) b(1,2)] str_lt_digit[OF a(4,5) b(4,5)])
  also have "\<dots> = (10 * (a div 10) + a mod 10 < 10 * (b div 10) + b mod 10
       \<or> (10 * (a div 10) + a mod 10 = 10 * (b div 10) + b mod 10 \<and> str_lt xs ys))"
    by (rule two_digits[OF a(4,5) b(4,5)])
  finally show ?thesis by simp
qed

lemma pad4_split:
  assumes "0 \<le> n" "n < 10000"
  shows "pad4 n = pad2 (n div 100) @ pad2 (n mod 100)"
proof -
  have 1: "n div 1000 = n div 100 div 10" 
    using zdiv_zmult2_eq[of 10 n 100] by simp
  have 2: "n mod 100 div 10 mod 10 = n div 10 mod 10"
  proof -
    define q where "q = n div 100"
    define r where "r = n mod 100"
    have n: "n = r + 10 * (10 * q)" by (simp add: q_def r_def)
    have "n div 10 = r div 10 + 10 * q"
      unfolding n by simp
    then have "n div 10 mod 10 = r div 10 mod 10"
      by simp
    then show ?thesis by (simp add: r_def)
  qed
  have 3: "n mod 100 mod 10 = n mod 10"
    by (simp add: mod_mod_cancel)
  show ?thesis
    by (simp add: pad4_def pad2_def 1 2 3)
qed


lemma str_lt_pad4:
  assumes "0 \<le> a" "a < 10000" "0 \<le> b" "b < 10000"
  shows "str_lt (pad4 a @ xs) (pad4 b @ ys) = (a < b \<or> (a = b \<and> str_lt xs ys))"
proof -
  have a: "0 \<le> a div 100" "a div 100 < 100" "0 \<le> a mod 100" "a mod 100 < 100"
    using assms by auto
  have b: "0 \<le> b div 100" "b div 100 < 100" "0 \<le> b mod 100" "b mod 100 < 100"
    using assms by auto
  have "str_lt (pad4 a @ xs) (pad4 b @ ys)
      = (a div 100 < b div 100 \<or> (a div 100 = b div 100 \<and>
          (a mod 100 < b mod 100 \<or> (a mod 100 = b mod 100 \<and> str_lt xs ys))))"
    unfolding pad4_split[OF assms(1,2)] pad4_split[OF assms(3,4)] append_assoc
    by (simp only: str_lt_pad2[OF a(1,2) b(1,2)] str_lt_pad2[OF a(3,4) b(3,4)])
  also have "\<dots> = (a < b \<or> (a = b \<and> str_lt xs ys))"
  proof -
    have A: "a = 100 * (a div 100) + a mod 100" and B: "b = 100 * (b div 100) + b mod 100"
      by simp_all
    define a1 a0 b1 b0 where "a1 = a div 100" and "a0 = a mod 100"
      and "b1 = b div 100" and "b0 = b mod 100"
    have r: "0 \<le> a0" "a0 < 100" "0 \<le> b0" "b0 < 100" "a = 100 * a1 + a0" "b = 100 * b1 + b0"
      using a b A B by (simp_all add: a1_def a0_def b1_def b0_def)
    have "(a1 < b1 \<or> (a1 = b1 \<and> (a0 < b0 \<or> (a0 = b0 \<and> str_lt xs ys))))
        = (a < b \<or> (a = b \<and> str_lt xs ys))"
      using r(1-4) unfolding r(5,6) by auto
    then show ?thesis by (simp only: a1_def a0_def b1_def b0_def)
  qed
  finally show ?thesis .
qed

lemma str_lt_dash: "str_lt (CHR ''-'' # xs) (CHR ''-'' # ys) = str_lt xs ys"
  by simp

lemma toISODate_less:
  assumes "0 \<le> YearFromDay (Day s)" "YearFromDay (Day s) \<le> 9999"
    and "0 \<le> YearFromDay (Day t)" "YearFromDay (Day t) \<le> 9999"
    and "0 \<le> DateFromDay (Day s)" "DateFromDay (Day s) < 100"
    and "0 \<le> DateFromDay (Day t)" "DateFromDay (Day t) < 100"
  shows "str_lt (toISODate s) (toISODate t) =
     (YearFromDay (Day s) < YearFromDay (Day t)
      \<or> (YearFromDay (Day s) = YearFromDay (Day t)
         \<and> (MonthFromDay (Day s) < MonthFromDay (Day t)
            \<or> (MonthFromDay (Day s) = MonthFromDay (Day t)
               \<and> DateFromDay (Day s) < DateFromDay (Day t)))))"
proof -
  have ms: "0 \<le> MonthFromDay (Day s) + 1" "MonthFromDay (Day s) + 1 < 100"
    using MonthFromDay_range[of "Day s"] by simp_all
  have mt: "0 \<le> MonthFromDay (Day t) + 1" "MonthFromDay (Day t) + 1 < 100"
    using MonthFromDay_range[of "Day t"] by simp_all
  have ys: "0 \<le> YearFromDay (Day s)" "YearFromDay (Day s) < 10000" using assms by simp_all
  have yt: "0 \<le> YearFromDay (Day t)" "YearFromDay (Day t) < 10000" using assms by simp_all
  define ds where "ds = pad2 (DateFromDay (Day s))"
  define dt where "dt = pad2 (DateFromDay (Day t))"
  define rs where "rs = CHR ''-'' # ds"
  define rt where "rt = CHR ''-'' # dt"
  define qs where "qs = CHR ''-'' # (pad2 (MonthFromDay (Day s) + 1) @ rs)"
  define qt where "qt = CHR ''-'' # (pad2 (MonthFromDay (Day t) + 1) @ rt)"
  have S: "toISODate s = pad4 (YearFromDay (Day s)) @ qs"
    using assms(1,2) by (simp add: toISODate_def isoYear_def qs_def rs_def ds_def Let_def)
  have T: "toISODate t = pad4 (YearFromDay (Day t)) @ qt"
    using assms(3,4) by (simp add: toISODate_def isoYear_def qt_def rt_def dt_def Let_def)
  have 1: "str_lt (toISODate s) (toISODate t) =
      (YearFromDay (Day s) < YearFromDay (Day t)
       \<or> (YearFromDay (Day s) = YearFromDay (Day t) \<and> str_lt qs qt))"
    unfolding S T by (rule str_lt_pad4[OF ys yt])
  have 2: "str_lt qs qt =
      (MonthFromDay (Day s) + 1 < MonthFromDay (Day t) + 1
       \<or> (MonthFromDay (Day s) + 1 = MonthFromDay (Day t) + 1 \<and> str_lt rs rt))"
    unfolding qs_def qt_def str_lt_dash by (rule str_lt_pad2[OF ms mt])
  have "str_lt ds dt = str_lt (ds @ []) (dt @ [])" by simp
  also have "\<dots> = (DateFromDay (Day s) < DateFromDay (Day t)
       \<or> (DateFromDay (Day s) = DateFromDay (Day t) \<and> str_lt [] []))"
    unfolding ds_def dt_def by (rule str_lt_pad2[OF assms(5,6) assms(7,8)])
  finally have 3: "str_lt rs rt = (DateFromDay (Day s) < DateFromDay (Day t))"
    by (simp add: rs_def rt_def)
  show ?thesis unfolding 1 2 3 by auto
qed


subsection \<open>The weekdays of a week\<close>

lemma loop_step:
  "current \<le> end' \<Longrightarrow> getWeekdays_loop tz current end' weekdays =
     getWeekdays_loop tz (current + msPerDay) end'
       (if isWeekday tz current then weekdays @ [current] else weekdays)"
  by (subst getWeekdays_loop_code) simp

lemma loop_stop: "end' < current \<Longrightarrow> getWeekdays_loop tz current end' weekdays = weekdays"
  by (subst getWeekdays_loop_code) simp

lemma loop_days:
  "getWeekdays_loop tz c (c + int n * msPerDay) acc =
     acc @ filter (isWeekday tz) (map (\<lambda>k. c + int k * msPerDay) [0..<Suc n])"
proof (induction n arbitrary: c acc)
  case 0
  have "getWeekdays_loop tz c c acc =
      getWeekdays_loop tz (c + msPerDay) c (if isWeekday tz c then acc @ [c] else acc)"
    by (rule loop_step) simp
  also have "\<dots> = (if isWeekday tz c then acc @ [c] else acc)"
    by (rule loop_stop) (simp add: msPerDay_def)
  finally show ?case by simp
next
  case (Suc n)
  define acc' where "acc' = (if isWeekday tz c then acc @ [c] else acc)"
  have e: "c + int (Suc n) * msPerDay = (c + msPerDay) + int n * msPerDay"
    by (simp add: algebra_simps)
  have "c \<le> c + int (Suc n) * msPerDay"
    by (simp add: msPerDay_def)
  then have "getWeekdays_loop tz c (c + int (Suc n) * msPerDay) acc =
      getWeekdays_loop tz (c + msPerDay) (c + int (Suc n) * msPerDay) acc'"
    unfolding acc'_def by (rule loop_step)
  also have "\<dots> = acc' @ filter (isWeekday tz)
       (map (\<lambda>k. (c + msPerDay) + int k * msPerDay) [0..<Suc n])"
    unfolding e by (rule Suc.IH)
  also have "map (\<lambda>k. (c + msPerDay) + int k * msPerDay) [0..<Suc n]
       = map (\<lambda>k. c + int k * msPerDay) (map Suc [0..<Suc n])"
    by (simp add: algebra_simps)
  also have "map Suc [0..<Suc n] = [Suc 0..<Suc (Suc n)]"
    by (rule map_Suc_upt)
  finally have "getWeekdays_loop tz c (c + int (Suc n) * msPerDay) acc =
      acc' @ filter (isWeekday tz) (map (\<lambda>k. c + int k * msPerDay) [Suc 0..<Suc (Suc n)])" .
  moreover have "[0..<Suc (Suc n)] = 0 # [Suc 0..<Suc (Suc n)]"
    by (simp add: upt_rec)
  ultimately show ?case
    by (simp add: acc'_def)
qed

lemma getWeekdays_filter:
  "getWeekdays tz year weekNumber =
     filter (isWeekday tz)
       (map (\<lambda>k. fst (getWeekBounds year weekNumber) + k * msPerDay) [0, 1, 2, 3, 4, 5, 6])"
proof -
  define s where "s = fst (getWeekBounds year weekNumber)"
  have b: "getWeekBounds year weekNumber = (s, s + 6 * msPerDay)"
    by (simp add: s_def getWeekBounds_eq Let_def)
  have u: "[0..<Suc 6] = [0, 1, 2, 3, 4, 5, 6]"
    by (simp add: upt_rec)
  have "getWeekdays_loop tz s (s + 6 * msPerDay) [] =
      filter (isWeekday tz) (map (\<lambda>k. s + int k * msPerDay) [0..<Suc 6])"
    using loop_days[of tz s 6 "[]"] by simp
  also have "map (\<lambda>k. s + int k * msPerDay) [0..<Suc 6]
      = map (\<lambda>k. s + k * msPerDay) [0, 1, 2, 3, 4, 5, 6]"
    unfolding u by simp
  finally show ?thesis
    unfolding s_def[symmetric] getWeekdays_def b by simp
qed

lemma week_start_days: "fst (getWeekBounds year weekNumber) = Day (fst (getWeekBounds year weekNumber)) * msPerDay"
  using Day_TimeWithinDay[of "fst (getWeekBounds year weekNumber)"]
  by (simp add: week_start_whole)

lemma WeekDay_after_Monday:
  assumes "WeekDay S = 1"
  shows "WeekDay (S + j) = (1 + j) mod 7"
proof -
  have e: "S + j + 4 = (S + 4) + j" by simp
  have "((S + 4) + j) mod 7 = ((S + 4) mod 7 + j) mod 7"
    by (rule mod_add_left_eq[symmetric])
  also have "\<dots> = (1 + j) mod 7"
    using assms unfolding WeekDay_def by simp
  finally show ?thesis unfolding WeekDay_def e .
qed

lemma getDay_in_week:
  assumes "valid_tz tz"
  shows "getDay tz (fst (getWeekBounds year weekNumber) + k * msPerDay)
       = (1 + k + (if tz < 0 then - 1 else 0)) mod 7"
proof -
  define S where "S = Day (fst (getWeekBounds year weekNumber))"
  have s: "fst (getWeekBounds year weekNumber) = S * msPerDay"
    unfolding S_def by (rule week_start_days)
  have M: "WeekDay S = 1"
    using week_start_Monday[of year weekNumber] by (simp add: getUTCDay_def S_def)
  have "S * msPerDay + k * msPerDay = (S + k) * msPerDay"
    by (simp add: algebra_simps)
  then have "Day (LocalTime tz (S * msPerDay + k * msPerDay)) = S + (k + (if tz < 0 then - 1 else 0))"
    using local_Day[OF assms, of "S + k"] by simp
  then show ?thesis
    unfolding s getDay_def using WeekDay_after_Monday[OF M, of "k + (if tz < 0 then - 1 else 0)"]
    by (simp add: algebra_simps)
qed

lemma getDay_week_table:
  assumes "valid_tz tz"
  defines "d \<equiv> (if tz < 0 then - 1 else 0)"
  shows "getDay tz (fst (getWeekBounds year weekNumber)) = (1 + d) mod 7"
    and "getDay tz (fst (getWeekBounds year weekNumber) + msPerDay) = 2 + d"
    and "getDay tz (fst (getWeekBounds year weekNumber) + 2 * msPerDay) = 3 + d"
    and "getDay tz (fst (getWeekBounds year weekNumber) + 3 * msPerDay) = 4 + d"
    and "getDay tz (fst (getWeekBounds year weekNumber) + 4 * msPerDay) = 5 + d"
    and "getDay tz (fst (getWeekBounds year weekNumber) + 5 * msPerDay) = 6 + d"
    and "getDay tz (fst (getWeekBounds year weekNumber) + 6 * msPerDay) = (7 + d) mod 7"
  using getDay_in_week[OF assms(1), of year weekNumber 0]
    getDay_in_week[OF assms(1), of year weekNumber 1]
    getDay_in_week[OF assms(1), of year weekNumber 2]
    getDay_in_week[OF assms(1), of year weekNumber 3]
    getDay_in_week[OF assms(1), of year weekNumber 4]
    getDay_in_week[OF assms(1), of year weekNumber 5]
    getDay_in_week[OF assms(1), of year weekNumber 6]
  by (simp_all add: d_def)

lemma getWeekdays_days:
  assumes "valid_tz tz"
  shows "getWeekdays tz year weekNumber =
     map (\<lambda>k. fst (getWeekBounds year weekNumber) + k * msPerDay)
       (if tz < 0 then [1, 2, 3, 4, 5] else [0, 1, 2, 3, 4])"
  unfolding getWeekdays_filter
  by (simp add: isWeekday_def getDay_week_table[OF assms] Let_def)

lemma getDay_weekdays:
  assumes "valid_tz tz"
  shows "map (getDay tz) (getWeekdays tz year weekNumber) = [1, 2, 3, 4, 5]"
  by (simp add: getWeekdays_days[OF assms] getDay_week_table[OF assms])


subsection \<open>Week summaries\<close>

lemma loggedMap_of_snoc:
  "loggedMap_of (xs @ [x]) k = (if date x = k then Some x else loggedMap_of xs k)"
  by (simp add: loggedMap_of_def)

lemma loggedMap_of_lookup:
  "loggedMap_of xs k =
     (if \<exists>e\<in>set xs. date e = k then Some (last (filter (\<lambda>e. date e = k) xs)) else None)"
proof (induction xs rule: rev_induct)
  case Nil
  show ?case by (simp add: loggedMap_of_def)
next
  case (snoc x xs)
  show ?case unfolding loggedMap_of_snoc using snoc.IH by auto
qed

lemma week_fields:
  "ws_weekNumber (calculateWeekSummary tz year weekNumber config allEntries) = weekNumber"
  "ws_year (calculateWeekSummary tz year weekNumber config allEntries) = year"
  "ws_startDate (calculateWeekSummary tz year weekNumber config allEntries)
     = toISODate (fst (getWeekBounds year weekNumber))"
  "ws_endDate (calculateWeekSummary tz year weekNumber config allEntries)
     = toISODate (snd (getWeekBounds year weekNumber))"
  "ws_days (calculateWeekSummary tz year weekNumber config allEntries)
     = map (dayFor (loggedMap_of (filter (inWeek (toISODate (fst (getWeekBounds year weekNumber)))
                                           (toISODate (snd (getWeekBounds year weekNumber))))
                                     allEntries)))
         (getWeekdays tz year weekNumber)"
  "ws_officeDays (calculateWeekSummary tz year weekNumber config allEntries)
     = int (length (filter isOffice
         (ws_days (calculateWeekSummary tz year weekNumber config allEntries))))"
  "ws_isCompliant (calculateWeekSummary tz year weekNumber config allEntries)
     = (requiredOfficeDaysPerWeek config
         \<le> ws_officeDays (calculateWeekSummary tz year weekNumber config allEntries))"
  by (simp_all add: calculateWeekSummary_def Let_def)

lemma getWeekdays_length: "valid_tz tz \<Longrightarrow> length (getWeekdays tz year weekNumber) = 5"
  by (simp add: getWeekdays_days)

subsection \<open>The dates of a week as strings\<close>

lemma str_lt_irrefl: "\<not> str_lt a a"
  by (induction a) simp_all

lemma str_lt_asym: "str_lt a b \<Longrightarrow> \<not> str_lt b a"
  by (induction a b rule: str_lt.induct) (auto split: if_splits)

lemma week_start_day:
  assumes "valid_year year"
  shows "Day (fst (getWeekBounds year weekNumber)) =
     DayFromYear year + 3 + (1 - (if getUTCDay (Date_UTC year 0 4) = 0 then 7
                                  else getUTCDay (Date_UTC year 0 4))
                             + (weekNumber - 1) * 7)"
  unfolding getWeekBounds_eq Let_def fst_conv Day_shift Day_Date_UTC
  by (simp add: MakeFullYear_valid[OF assms] MakeDay_January)

lemma week_day_bounds:
  assumes "valid_year year" "1 \<le> weekNumber" "weekNumber \<le> 53" "0 \<le> k" "k \<le> 6"
  shows "DayFromYear year - 3 \<le> Day (fst (getWeekBounds year weekNumber)) + k"
    and "Day (fst (getWeekBounds year weekNumber)) + k \<le> DayFromYear year + 373"
  using assms isoDay_range[of "Date_UTC year 0 4"]
  unfolding week_start_day[OF assms(1)] by simp_all

lemma week_day_year:
  assumes "valid_year year" "1 \<le> weekNumber" "weekNumber \<le> 53" "0 \<le> k" "k \<le> 6"
  shows "year - 1 \<le> YearFromDay (Day (fst (getWeekBounds year weekNumber)) + k)"
    and "YearFromDay (Day (fst (getWeekBounds year weekNumber)) + k) \<le> year + 1"
proof -
  define d where "d = Day (fst (getWeekBounds year weekNumber)) + k"
  have lo: "DayFromYear year - 3 \<le> d" and hi: "d \<le> DayFromYear year + 373"
    using week_day_bounds[OF assms] by (simp_all add: d_def)
  have "DayFromYear (year - 1) + 365 \<le> DayFromYear year"
    using DayFromYear_next_ge[of "year - 1"] by simp
  then have "DayFromYear (year - 1) \<le> d" using lo by simp
  then show "year - 1 \<le> YearFromDay (Day (fst (getWeekBounds year weekNumber)) + k)"
    unfolding d_def[symmetric] by (rule YearFromDay_ge)
  have "DayFromYear year + 730 \<le> DayFromYear (year + 1 + 1)"
    using DayFromYear_next_ge[of year] DayFromYear_next_ge[of "year + 1"] by simp
  then have "d < DayFromYear (year + 1 + 1)" using hi by simp
  then show "YearFromDay (Day (fst (getWeekBounds year weekNumber)) + k) \<le> year + 1"
    unfolding d_def[symmetric] by (rule YearFromDay_le)
qed

lemma week_dates_lt:
  assumes "valid_year year" "1 \<le> weekNumber" "weekNumber \<le> 53" "0 \<le> j" "j < k" "k \<le> 6"
  shows "str_lt (toISODate (fst (getWeekBounds year weekNumber) + j * msPerDay))
                (toISODate (fst (getWeekBounds year weekNumber) + k * msPerDay))"
proof -
  define s where "s = fst (getWeekBounds year weekNumber)"
  have j: "0 \<le> j" "j \<le> 6" and k: "0 \<le> k" "k \<le> 6" using assms by simp_all
  have yj: "0 \<le> YearFromDay (Day (s + j * msPerDay))" "YearFromDay (Day (s + j * msPerDay)) \<le> 9999"
    using week_day_year[OF assms(1-3) j] assms(1) by (simp_all add: s_def Day_shift valid_year_def)
  have yk: "0 \<le> YearFromDay (Day (s + k * msPerDay))" "YearFromDay (Day (s + k * msPerDay)) \<le> 9999"
    using week_day_year[OF assms(1-3) k] assms(1) by (simp_all add: s_def Day_shift valid_year_def)
  have dj: "0 \<le> DateFromDay (Day (s + j * msPerDay))" "DateFromDay (Day (s + j * msPerDay)) < 100"
    using DateFromDay_range[of "Day (s + j * msPerDay)"] by simp_all
  have dk: "0 \<le> DateFromDay (Day (s + k * msPerDay))" "DateFromDay (Day (s + k * msPerDay)) < 100"
    using DateFromDay_range[of "Day (s + k * msPerDay)"] by simp_all
  have "Day (s + j * msPerDay) < Day (s + k * msPerDay)"
    using assms(5) by (simp add: Day_shift)
  then show ?thesis
    unfolding s_def[symmetric] toISODate_less[OF yj yk dj dk]
    by (rule calendar_order)
qed

lemma week_dates_inWeek:
  assumes "valid_year year" "1 \<le> weekNumber" "weekNumber \<le> 53" "0 \<le> k" "k \<le> 6"
    and "date entry = toISODate (fst (getWeekBounds year weekNumber) + k * msPerDay)"
  shows "inWeek (toISODate (fst (getWeekBounds year weekNumber)))
                (toISODate (snd (getWeekBounds year weekNumber))) entry"
proof -
  define s where "s = fst (getWeekBounds year weekNumber)"
  have e: "snd (getWeekBounds year weekNumber) = s + 6 * msPerDay"
    by (simp add: s_def getWeekBounds_eq Let_def)
  have lo: "\<not> str_lt (toISODate (s + k * msPerDay)) (toISODate s)"
  proof (cases "k = 0")
    case True
    then show ?thesis by (simp add: str_lt_irrefl)
  next
    case False
    then have "0 < k" using assms(4) by simp
    then have "str_lt (toISODate (s + 0 * msPerDay)) (toISODate (s + k * msPerDay))"
      unfolding s_def using assms by (intro week_dates_lt) simp_all
    then show ?thesis using str_lt_asym by fastforce
  qed
  have hi: "\<not> str_lt (toISODate (s + 6 * msPerDay)) (toISODate (s + k * msPerDay))"
  proof (cases "k = 6")
    case True
    then show ?thesis by (simp add: str_lt_irrefl)
  next
    case False
    then have "k < 6" using assms(5) by simp
    then have "str_lt (toISODate (s + k * msPerDay)) (toISODate (s + 6 * msPerDay))"
      unfolding s_def using assms by (intro week_dates_lt) simp_all
    then show ?thesis using str_lt_asym by blast
  qed
  show ?thesis
    unfolding s_def[symmetric] e inWeek_def str_ge_def str_le_def assms(6)[unfolded s_def[symmetric]]
    using lo hi by simp
qed

subsection \<open>Lookup of the logged days\<close>

lemma dayFor_in_week:
  assumes "valid_year year" "1 \<le> weekNumber" "weekNumber \<le> 53" "0 \<le> k" "k \<le> 6"
  defines "d \<equiv> fst (getWeekBounds year weekNumber) + k * msPerDay"
  shows "dayFor (loggedMap_of (filter (inWeek (toISODate (fst (getWeekBounds year weekNumber)))
                                         (toISODate (snd (getWeekBounds year weekNumber))))
                                 allEntries)) d =
     (if \<exists>e\<in>set allEntries. date e = toISODate d
      then last (filter (\<lambda>e. date e = toISODate d) allEntries)
      else \<lparr>date = toISODate d, location = Home, notes' = None\<rparr>)"
proof -
  define P where "P = inWeek (toISODate (fst (getWeekBounds year weekNumber)))
                             (toISODate (snd (getWeekBounds year weekNumber)))"
  have in_week: "P e" if "date e = toISODate d" for e
    unfolding P_def using assms(1-5) that[unfolded d_def] by (rule week_dates_inWeek)
  have f: "filter (\<lambda>e. date e = toISODate d) (filter P allEntries)
      = filter (\<lambda>e. date e = toISODate d) allEntries"
    unfolding filter_filter by (rule filter_cong) (auto simp: in_week)
  have ex: "(\<exists>e\<in>set (filter P allEntries). date e = toISODate d)
      = (\<exists>e\<in>set allEntries. date e = toISODate d)"
    using in_week by auto
  show ?thesis
    unfolding P_def[symmetric] dayFor_def Let_def loggedMap_of_lookup f ex
    by simp
qed

lemma dayFor_date:
  "date (dayFor (loggedMap_of xs) d) = toISODate d"
proof (cases "\<exists>e\<in>set xs. date e = toISODate d")
  case True
  then have "filter (\<lambda>e. date e = toISODate d) xs \<noteq> []"
    by (simp add: filter_empty_conv)
  then have "last (filter (\<lambda>e. date e = toISODate d) xs) \<in> set (filter (\<lambda>e. date e = toISODate d) xs)"
    by (rule last_in_set)
  then have "date (last (filter (\<lambda>e. date e = toISODate d) xs)) = toISODate d"
    by simp
  then show ?thesis using True by (simp add: dayFor_def Let_def loggedMap_of_lookup)
next
  case False
  then show ?thesis by (simp add: dayFor_def Let_def loggedMap_of_lookup)
qed

lemma week_dates_distinct:
  assumes "valid_year year" "1 \<le> weekNumber" "weekNumber \<le> 53"
    and "0 \<le> j" "j < k" "k \<le> 6"
  shows "toISODate (fst (getWeekBounds year weekNumber) + j * msPerDay)
       \<noteq> toISODate (fst (getWeekBounds year weekNumber) + k * msPerDay)"
  using week_dates_lt[OF assms] str_lt_irrefl by metis

lemma weekday_offsets:
  assumes "valid_tz tz" "i < 5"
  shows "\<exists>k. 0 \<le> k \<and> k \<le> 6 \<and>
    getWeekdays tz year weekNumber ! i = fst (getWeekBounds year weekNumber) + k * msPerDay"
proof -
  have i: "i \<in> {0, 1, 2, 3, 4}" using assms(2) by auto
  show ?thesis
  proof (cases "tz < 0")
    case True
    then have "getWeekdays tz year weekNumber ! i
        = fst (getWeekBounds year weekNumber) + (int i + 1) * msPerDay"
      using i by (auto simp: getWeekdays_days[OF assms(1)])
    then show ?thesis using assms(2) by (intro exI[of _ "int i + 1"]) simp
  next
    case False
    then have "getWeekdays tz year weekNumber ! i
        = fst (getWeekBounds year weekNumber) + int i * msPerDay"
      using i by (auto simp: getWeekdays_days[OF assms(1)])
    then show ?thesis using assms(2) by (intro exI[of _ "int i"]) simp
  qed
qed

lemma weekdays_dates_distinct:
  assumes "valid_tz tz" "valid_year year" "1 \<le> weekNumber" "weekNumber \<le> 53"
  shows "distinct (map toISODate (getWeekdays tz year weekNumber))"
proof -
  have d: "toISODate (fst (getWeekBounds year weekNumber) + j * msPerDay)
       \<noteq> toISODate (fst (getWeekBounds year weekNumber) + k * msPerDay)"
    if "0 \<le> j" "j < k" "k \<le> 6" for j k
    using assms(2-4) that by (rule week_dates_distinct)
  have d': "toISODate (fst (getWeekBounds year weekNumber) + k * msPerDay)
       \<noteq> toISODate (fst (getWeekBounds year weekNumber) + j * msPerDay)"
    if "0 \<le> j" "j < k" "k \<le> 6" for j k
    using d[OF that] by simp
  show ?thesis
    using d[of 0 1] d[of 0 2] d[of 0 3] d[of 0 4] d[of 1 2] d[of 1 3] d[of 1 4] d[of 1 5]
      d[of 2 3] d[of 2 4] d[of 2 5] d[of 3 4] d[of 3 5] d[of 4 5]
    by (simp add: getWeekdays_days[OF assms(1)])
qed

subsection \<open>Weekend entries\<close>

lemma weekend_excluded_east:
  assumes "valid_tz tz" "0 \<le> tz" "valid_year year" "1 \<le> weekNumber" "weekNumber \<le> 53"
    and "date entry = toISODate (fst (getWeekBounds year weekNumber) + 5 * msPerDay)
       \<or> date entry = toISODate (fst (getWeekBounds year weekNumber) + 6 * msPerDay)"
  shows "entry \<notin> set (ws_days (calculateWeekSummary tz year weekNumber config allEntries))"
proof
  assume "entry \<in> set (ws_days (calculateWeekSummary tz year weekNumber config allEntries))"
  then have "date entry \<in> set (map date
      (ws_days (calculateWeekSummary tz year weekNumber config allEntries)))"
    by simp
  also have "map date (ws_days (calculateWeekSummary tz year weekNumber config allEntries))
      = map toISODate (getWeekdays tz year weekNumber)"
    unfolding week_fields(5) by (simp add: dayFor_date)
  finally have m: "date entry \<in> toISODate ` set (getWeekdays tz year weekNumber)"
    by simp
  have d: "toISODate (fst (getWeekBounds year weekNumber) + j * msPerDay)
       \<noteq> toISODate (fst (getWeekBounds year weekNumber) + k * msPerDay)"
    if "0 \<le> j" "j < k" "k \<le> 6" for j k
    using assms(3-5) that by (rule week_dates_distinct)
  show False
    using m assms(6) d[of 0 5] d[of 1 5] d[of 2 5] d[of 3 5] d[of 4 5]
      d[of 0 6] d[of 1 6] d[of 2 6] d[of 3 6] d[of 4 6] assms(2)
    by (auto simp: getWeekdays_days[OF assms(1)])
qed

subsection \<open>ISO week numbers\<close>

lemma ceil_div_days: "ceil_div (x * msPerDay) (7 * msPerDay) = ceil_div x 7"
proof -
  have "(- (x * msPerDay)) div (7 * msPerDay) = (msPerDay * (- x)) div (msPerDay * 7)"
    by (simp add: algebra_simps)
  also have "\<dots> = (- x) div 7"
    by (rule div_mult_mult1) (simp add: msPerDay_def)
  finally show ?thesis by (simp add: ceil_div_def)
qed

lemma ceil_div_week:
  assumes "0 \<le> r" "r \<le> 6"
  shows "ceil_div (7 * w - r) 7 = w"
proof -
  have "(- (7 * w - r)) div 7 = (r + (- w) * 7) div 7"
    by (simp add: algebra_simps)
  also have "\<dots> = (- w) + r div 7"
    by (rule div_mult_self1) simp
  also have "\<dots> = - w" using assms by simp
  finally show ?thesis by (simp add: ceil_div_def)
qed

lemma Date_UTC_fields:
  assumes "99 < YearFromDay S"
  shows "Date_UTC (YearFromDay S) (MonthFromDay S) (DateFromDay S) = S * msPerDay"
  using MakeDay_fields[of S 0] assms by (simp add: Date_UTC_def MakeFullYear_def)

lemma getWeekNumber_local_day:
  assumes "99 < YearFromDay L" "99 < YearFromDay (L + 4 - (if WeekDay L = 0 then 7 else WeekDay L))"
    and "Day (LocalTime tz t) = L"
  shows "getWeekNumber tz t =
     (let thursday = L + 4 - (if WeekDay L = 0 then 7 else WeekDay L)
      in ceil_div (thursday - DayFromYear (YearFromDay thursday) + 1) 7)"
proof -
  define dayNum where "dayNum = (if WeekDay L = 0 then 7 else WeekDay L)"
  define d0 where "d0 = L * msPerDay"
  have d0: "Date_UTC (getFullYear tz t) (getMonth tz t) (getDate tz t) = d0"
    unfolding getFullYear_def getMonth_def getDate_def assms(3) d0_def
    by (rule Date_UTC_fields[OF assms(1)])
  have day0: "Day d0 = L" by (simp add: d0_def Day_whole)
  have wd: "(if getUTCDay d0 = 0 then 7 else getUTCDay d0) = dayNum"
    by (simp add: getUTCDay_def day0 dayNum_def)
  have e: "getUTCDate d0 + 4 - dayNum = getUTCDate d0 + (4 - dayNum)" by simp
  have d: "setUTCDate d0 (getUTCDate d0 + 4 - dayNum) = (L + 4 - dayNum) * msPerDay"
    unfolding e setUTCDate_shift by (simp add: d0_def algebra_simps)
  have y: "getUTCFullYear ((L + 4 - dayNum) * msPerDay) = YearFromDay (L + 4 - dayNum)"
    by (simp add: getUTCFullYear_def Day_whole)
  have ys: "Date_UTC (YearFromDay (L + 4 - dayNum)) 0 1
      = DayFromYear (YearFromDay (L + 4 - dayNum)) * msPerDay"
    using assms(2) by (simp add: Date_UTC_def MakeFullYear_def MakeDay_January dayNum_def)
  have "getWeekNumber tz t =
      ceil_div ((L + 4 - dayNum) * msPerDay
        - DayFromYear (YearFromDay (L + 4 - dayNum)) * msPerDay + msPerDay) (7 * msPerDay)"
    unfolding getWeekNumber_def Let_def d0 wd d y ys ..
  also have "(L + 4 - dayNum) * msPerDay
        - DayFromYear (YearFromDay (L + 4 - dayNum)) * msPerDay + msPerDay
      = (L + 4 - dayNum - DayFromYear (YearFromDay (L + 4 - dayNum)) + 1) * msPerDay"
    by (simp add: algebra_simps)
  finally show ?thesis
    unfolding ceil_div_days Let_def dayNum_def .
qed

subsection \<open>Weeks and quarters\<close>

lemma Day_lower: "k * msPerDay \<le> t \<Longrightarrow> k \<le> Day t"
proof -
  assume "k * msPerDay \<le> t"
  then have "(k * msPerDay) div msPerDay \<le> t div msPerDay"
    by (intro zdiv_mono1) (simp_all add: msPerDay_def)
  then show ?thesis by (simp add: Day_def msPerDay_def)
qed

lemma Day_upper: "t \<le> k * msPerDay \<Longrightarrow> Day t \<le> k"
proof -
  assume "t \<le> k * msPerDay"
  then have "t div msPerDay \<le> (k * msPerDay) div msPerDay"
    by (intro zdiv_mono1) (simp_all add: msPerDay_def)
  then show ?thesis by (simp add: Day_def msPerDay_def)
qed

lemma getQuarter_range: "1 \<le> getQuarter tz t \<and> getQuarter tz t \<le> 4"
proof -
  define m where "m = MonthFromDay (Day (LocalTime tz t))"
  have m: "0 \<le> m" "m \<le> 11"
    using MonthFromDay_range[of "Day (LocalTime tz t)"] by (simp_all add: m_def)
  have "0 div 3 \<le> m div 3" "m div 3 \<le> 11 div 3"
    using m by (intro zdiv_mono1; simp)+
  then show ?thesis
    by (simp add: getQuarter_def getMonth_def m_def)
qed

lemma week_in_year:
  assumes "valid_tz tz" "valid_year year" "1 \<le> weekNumber" "weekNumber \<le> 52"
  shows "fst (getQuarterForWeek tz year weekNumber) = year
       \<and> 1 \<le> snd (getQuarterForWeek tz year weekNumber)
       \<and> snd (getQuarterForWeek tz year weekNumber) \<le> 4"
proof -
  define s where "s = fst (getWeekBounds year weekNumber)"
  define S where "S = Day s"
  define wd where "wd = (if getUTCDay (Date_UTC year 0 4) = 0 then 7
                         else getUTCDay (Date_UTC year 0 4))"
  define jan1 where "jan1 = Date_local tz year 0 1"
  have s: "s = S * msPerDay"
    unfolding S_def s_def by (rule week_start_days)
  have b: "getWeekBounds year weekNumber = (s, s + 6 * msPerDay)"
    by (simp add: s_def getWeekBounds_eq Let_def)
  have wd: "1 \<le> wd" "wd \<le> 7"
    using isoDay_range[of "Date_UTC year 0 4"] by (simp_all add: wd_def)
  have S: "S = DayFromYear year + 3 + (1 - wd + (weekNumber - 1) * 7)"
    unfolding S_def s_def wd_def by (rule week_start_day[OF assms(2)])
  have j: "jan1 = DayFromYear year * msPerDay - tz * 60000"
    by (simp add: jan1_def Date_local_def UTCTime_def MakeFullYear_valid[OF assms(2)]
        MakeDay_January)
  have tz: "- 720 \<le> tz" "tz \<le> 840" using assms(1) by (simp_all add: valid_tz_def)
  have q_eq: "getQuarterForWeek tz year weekNumber =
      (if s \<le> jan1 \<and> jan1 \<le> s + 6 * msPerDay then (year, 1)
       else (getFullYear tz s, getQuarter tz s))"
    unfolding getQuarterForWeek_def b jan1_def Let_def by simp
  show ?thesis
  proof (cases "s \<le> jan1 \<and> jan1 \<le> s + 6 * msPerDay")
    case True
    then show ?thesis
      unfolding q_eq by (simp only: if_P) simp
  next
    case False
    have q: "getQuarterForWeek tz year weekNumber = (getFullYear tz s, getQuarter tz s)"
      unfolding q_eq by (rule if_not_P[OF False])
    have "(S + 6) * msPerDay \<ge> (DayFromYear year + 3) * msPerDay"
      unfolding S using wd assms(3) by (simp add: msPerDay_def)
    then have "jan1 \<le> s + 6 * msPerDay"
      unfolding j s using tz by (simp add: msPerDay_def algebra_simps)
    then have "jan1 < s" using False by simp
    then have "DayFromYear year * msPerDay \<le> LocalTime tz s"
      unfolding j by (simp add: LocalTime_def)
    then have lo: "DayFromYear year \<le> Day (LocalTime tz s)"
      by (rule Day_lower)
    have "LocalTime tz s \<le> (S + 1) * msPerDay"
      unfolding s LocalTime_def using tz by (simp add: msPerDay_def algebra_simps)
    then have "Day (LocalTime tz s) \<le> S + 1"
      by (rule Day_upper)
    also have "S + 1 \<le> DayFromYear year + 361"
      unfolding S using wd assms(4) by simp
    also have "\<dots> < DayFromYear (year + 1)"
      using DayFromYear_next_ge[of year] by simp
    finally have hi: "Day (LocalTime tz s) < DayFromYear (year + 1)" .
    have "getFullYear tz s = year"
      unfolding getFullYear_def using lo hi by (rule YearFromDay_unique)
    then show ?thesis
      using getQuarter_range[of tz s] by (simp add: q)
  qed
qed

lemma occurrences_sort: "length (filter P (sort xs)) = length (filter P xs)"
  by (simp add: filter_sort)

lemma occurrences_upto:
  "length (filter ((=) w) (filter P [1..53])) = (if 1 \<le> w \<and> w \<le> 53 \<and> P w then 1 else 0)"
proof -
  have "length (filter ((=) w) (filter P [1..53]))
      = length (filter (\<lambda>x. P x \<and> w = x) [1..53])"
    by (simp add: filter_filter)
  also have "\<dots> = card ({x. P x \<and> w = x} \<inter> set [1..53])"
    by (rule distinct_length_filter) simp
  also have "{x. P x \<and> w = x} \<inter> set [1..53]
      = (if 1 \<le> w \<and> w \<le> 53 \<and> P w then {w} else {})"
    by auto
  finally show ?thesis by simp
qed

lemma occurrences_in_quarter:
  assumes "1 \<le> w" "w \<le> 52"
  shows "length (filter ((=) w) (getWeeksInQuarter tz year quarter))
       = (if belongsToQuarter tz year quarter w then 1 else 0)"
proof -
  define ws where "ws = filter (belongsToQuarter tz year quarter) [1..53]"
  have a: "length (filter ((=) w) ws) = (if belongsToQuarter tz year quarter w then 1 else 0)"
    unfolding ws_def occurrences_upto using assms by simp
  have b: "length (filter ((=) w) (53 # ws)) = length (filter ((=) w) ws)"
    using assms by simp
  have "length (filter ((=) w) (getWeeksInQuarter tz year quarter))
      = length (filter ((=) w) ws)"
    unfolding getWeeksInQuarter_def Let_def occurrences_sort ws_def[symmetric]
    using b by (simp split: if_splits)
  then show ?thesis using a by simp
qed

lemma weeks_1_to_52_once:
  assumes "valid_tz tz" "valid_year year" "1 \<le> w" "w \<le> 52"
  shows "\<exists>q\<in>{1, 2, 3, 4}.
           length (filter ((=) w) (getWeeksInQuarter tz year q)) = 1
           \<and> (\<forall>q'. q' \<noteq> q \<longrightarrow> w \<notin> set (getWeeksInQuarter tz year q'))"
proof -
  define q where "q = snd (getQuarterForWeek tz year w)"
  have y: "fst (getQuarterForWeek tz year w) = year" and q: "1 \<le> q" "q \<le> 4"
    using week_in_year[OF assms] by (simp_all add: q_def)
  have b: "belongsToQuarter tz year q' w = (q' = q)" for q'
    by (auto simp: belongsToQuarter_def Let_def y q_def)
  have one: "length (filter ((=) w) (getWeeksInQuarter tz year q)) = 1"
    by (simp add: occurrences_in_quarter[OF assms(3,4)] b)
  have none: "w \<notin> set (getWeeksInQuarter tz year q')" if "q' \<noteq> q" for q'
  proof -
    have "length (filter ((=) w) (getWeeksInQuarter tz year q')) = 0"
      using that by (simp add: occurrences_in_quarter[OF assms(3,4)] b)
    then show ?thesis by (auto simp: filter_empty_conv)
  qed
  have "q \<in> {1, 2, 3, 4}" using q by auto
  then show ?thesis using one none by blast
qed

lemma getWeeksInQuarter_sorted:
  "sorted (getWeeksInQuarter tz year quarter)
   \<and> set (getWeeksInQuarter tz year quarter) \<subseteq> {1..53}"
  by (auto simp: getWeeksInQuarter_def Let_def)

subsection \<open>Weekend entries east of UTC\<close>

lemma weekend_ignored_east:
  assumes "valid_tz tz" "0 \<le> tz" "valid_year year" "1 \<le> weekNumber" "weekNumber \<le> 53"
  defines "sat \<equiv> toISODate (fst (getWeekBounds year weekNumber) + 5 * msPerDay)"
    and "sun \<equiv> toISODate (fst (getWeekBounds year weekNumber) + 6 * msPerDay)"
  shows "calculateWeekSummary tz year weekNumber config allEntries
       = calculateWeekSummary tz year weekNumber config
           (filter (\<lambda>e. date e \<noteq> sat \<and> date e \<noteq> sun) allEntries)"
proof -
  define s where "s = fst (getWeekBounds year weekNumber)"
  define rest where "rest = filter (\<lambda>e. date e \<noteq> sat \<and> date e \<noteq> sun) allEntries"
  define lm where "lm = (\<lambda>es. loggedMap_of
      (filter (inWeek (toISODate (fst (getWeekBounds year weekNumber)))
                      (toISODate (snd (getWeekBounds year weekNumber)))) es))"
  have key: "dayFor (lm allEntries) (s + k * msPerDay) = dayFor (lm rest) (s + k * msPerDay)"
    if k: "0 \<le> k" "k \<le> 4" for k
  proof -
    define dk where "dk = toISODate (s + k * msPerDay)"
    have "dk \<noteq> sat" "dk \<noteq> sun"
      unfolding dk_def sat_def sun_def s_def
      using week_dates_distinct[OF assms(3-5), of k 5] week_dates_distinct[OF assms(3-5), of k 6] k
      by simp_all
    then have f: "filter (\<lambda>e. date e = dk) rest = filter (\<lambda>e. date e = dk) allEntries"
      unfolding rest_def filter_filter by (intro filter_cong) auto
    have ex: "(\<exists>e\<in>set rest. date e = dk) = (\<exists>e\<in>set allEntries. date e = dk)"
      using \<open>dk \<noteq> sat\<close> \<open>dk \<noteq> sun\<close> by (auto simp: rest_def)
    have k6: "k \<le> 6" using k by simp
    show ?thesis
      unfolding lm_def s_def
        dayFor_in_week[OF assms(3-5) k(1) k6, of allEntries]
        dayFor_in_week[OF assms(3-5) k(1) k6, of rest]
      unfolding s_def[symmetric] dk_def[symmetric] f ex ..
  qed
  have days: "map (dayFor (lm allEntries)) (getWeekdays tz year weekNumber)
      = map (dayFor (lm rest)) (getWeekdays tz year weekNumber)"
    using key[of 0] key[of 1] key[of 2] key[of 3] key[of 4] assms(2)
    by (simp add: getWeekdays_days[OF assms(1)] s_def)
  show ?thesis
    unfolding calculateWeekSummary_def Let_def rest_def[symmetric] days[unfolded lm_def] ..
qed

subsection \<open>Quarter summaries\<close>

lemma quarter_weeks_ascending:
  "map ws_weekNumber (qs_weeks (calculateQuarterSummary tz year quarter config allEntries))
     = getWeeksInQuarter tz year quarter
   \<and> sorted (map ws_weekNumber
        (qs_weeks (calculateQuarterSummary tz year quarter config allEntries)))
   \<and> (\<forall>w\<in>set (qs_weeks (calculateQuarterSummary tz year quarter config allEntries)).
        ws_year w = year)"
proof -
  have f: "ws_weekNumber \<circ> summarizeWeek tz year config allEntries = id"
    by (rule ext) (simp add: summarizeWeek_def week_fields(1))
  have w: "qs_weeks (calculateQuarterSummary tz year quarter config allEntries)
      = map (summarizeWeek tz year config allEntries) (getWeeksInQuarter tz year quarter)"
    by (simp add: calculateQuarterSummary_def Let_def)
  have n: "map ws_weekNumber (qs_weeks (calculateQuarterSummary tz year quarter config allEntries))
      = getWeeksInQuarter tz year quarter"
    unfolding w map_map f by simp
  have s: "sorted (getWeeksInQuarter tz year quarter)"
    using getWeeksInQuarter_sorted[of tz year quarter] by simp
  have y: "\<forall>w\<in>set (qs_weeks (calculateQuarterSummary tz year quarter config allEntries)).
      ws_year w = year"
    unfolding w by (auto simp: summarizeWeek_def week_fields(2))
  show ?thesis using n s y by simp
qed

subsection \<open>Zones east and west of UTC\<close>

text \<open>
  \<^verbatim>\<open>getWeekBounds\<close> returns UTC midnights and \<^verbatim>\<open>toISODate\<close> prints the UTC date, while
  \<^verbatim>\<open>getQuarterForWeek\<close>, \<^verbatim>\<open>getQuarter\<close> and \<^verbatim>\<open>isWeekday\<close> read local fields.  At and
  east of UTC the local calendar day of a UTC midnight is its UTC day; west of UTC it is
  the day before.  The lemmas of this subsection state what the functions compute on
  either side, for every constant offset.
\<close>

lemma week_end_eq:
  "snd (getWeekBounds year weekNumber) = fst (getWeekBounds year weekNumber) + 6 * msPerDay"
  by (simp add: getWeekBounds_eq Let_def)

text \<open>
  The rule of \<^verbatim>\<open>getQuarterForWeek\<close> in the terms of the code: the comparison with the
  local midnight of January 1st, and the local year and month of the start of the week.
\<close>

lemma getQuarterForWeek_local_fields:
  assumes "valid_tz tz"
  shows "getQuarterForWeek tz year weekNumber =
          (let start = fst (getWeekBounds year weekNumber);
               end' = snd (getWeekBounds year weekNumber);
               jan1 = Date_local tz year 0 1
           in if start \<le> jan1 \<and> jan1 \<le> end' then (year, 1)
              else (getFullYear tz start, getMonth tz start div 3 + 1))
        \<and> (valid_year year \<longrightarrow>
              getFullYear tz (Date_local tz year 0 1) = year
              \<and> getMonth tz (Date_local tz year 0 1) = 0
              \<and> getDate tz (Date_local tz year 0 1) = 1
              \<and> TimeWithinDay (LocalTime tz (Date_local tz year 0 1)) = 0)
        \<and> getQuarterForWeek tz 2025 1 = (2025, 1)
        \<and> getFullYear tz (fst (getWeekBounds 2025 1)) = 2024
        \<and> getMonth tz (fst (getWeekBounds 2025 1)) = 11"
proof -
  have general: "getQuarterForWeek tz year weekNumber =
          (let start = fst (getWeekBounds year weekNumber);
               end' = snd (getWeekBounds year weekNumber);
               jan1 = Date_local tz year 0 1
           in if start \<le> jan1 \<and> jan1 \<le> end' then (year, 1)
              else (getFullYear tz start, getMonth tz start div 3 + 1))"
    by (simp add: getQuarterForWeek_def getQuarter_def Let_def split_beta)
  have jan1: "getFullYear tz (Date_local tz year 0 1) = year
              \<and> getMonth tz (Date_local tz year 0 1) = 0
              \<and> getDate tz (Date_local tz year 0 1) = 1
              \<and> TimeWithinDay (LocalTime tz (Date_local tz year 0 1)) = 0"
    if "valid_year year"
  proof -
    have l: "LocalTime tz (Date_local tz year 0 1) = DayFromYear year * msPerDay"
      by (simp add: LocalTime_def Date_local_def UTCTime_def MakeFullYear_valid[OF that]
          MakeDay_January)
    have d: "Day (DayFromYear year * msPerDay) = DayFromYear year + 0"
      by (simp add: Day_whole)
    show ?thesis
      unfolding getFullYear_def getMonth_def getDate_def l d
      using January_fields[of 0 year] by (simp add: TimeWithinDay_def)
  qed
  have "20087 * msPerDay \<le> 20089 * msPerDay - tz * 60000"
      "20089 * msPerDay - tz * 60000 \<le> 20093 * msPerDay"
    using assms by (simp_all add: valid_tz_def msPerDay_def)
  then have inst: "getQuarterForWeek tz 2025 1 = (2025, 1)"
    by (simp add: getQuarterForWeek_def bounds_2025_1 jan1_2025)
  have "Day (LocalTime tz (20087 * msPerDay)) = 20086 \<or> Day (LocalTime tz (20087 * msPerDay)) = 20087"
    using local_Day[OF assms, of 20087] by (simp split: if_splits)
  then have monday: "getFullYear tz (fst (getWeekBounds 2025 1)) = 2024"
      "getMonth tz (fst (getWeekBounds 2025 1)) = 11"
    using ymd_20086 ymd_20087 by (auto simp: getFullYear_def getMonth_def bounds_2025_1)
  show ?thesis using general jan1 inst monday by blast
qed

text \<open>
  At and east of UTC the result is that of the rule read on the calendar: quarter 1 of
  \<open>year\<close> when January 1st is one of the seven days of the week, and otherwise the year
  and the quarter of the Monday.
\<close>

lemma getQuarterForWeek_east:
  assumes "valid_tz tz" "0 \<le> tz" "valid_year year"
  shows "getQuarterForWeek tz year weekNumber =
          (let start = fst (getWeekBounds year weekNumber);
               end' = snd (getWeekBounds year weekNumber);
               jan1 = Date_UTC year 0 1
           in if start \<le> jan1 \<and> jan1 \<le> end' then (year, 1)
              else (getUTCFullYear start, MonthFromDay (Day start) div 3 + 1))"
proof -
  define S where "S = Day (fst (getWeekBounds year weekNumber))"
  define J where "J = DayFromYear year"
  define x where "x = tz * 60000"
  have s: "fst (getWeekBounds year weekNumber) = S * msPerDay"
    unfolding S_def by (rule week_start_days)
  have e: "snd (getWeekBounds year weekNumber) = S * msPerDay + 6 * msPerDay"
    unfolding week_end_eq s ..
  have x: "0 \<le> x" "x < msPerDay"
    using assms(1,2) by (simp_all add: x_def valid_tz_def msPerDay_def)
  have ju: "Date_UTC year 0 1 = J * msPerDay"
    by (simp add: Date_UTC_def MakeFullYear_valid[OF assms(3)] MakeDay_January J_def)
  have jl: "Date_local tz year 0 1 = J * msPerDay - x"
    by (simp add: Date_local_def UTCTime_def MakeFullYear_valid[OF assms(3)] MakeDay_January
        J_def x_def)
  have l: "Day (LocalTime tz (S * msPerDay)) = S"
    using local_Day[OF assms(1), of S] assms(2) by simp
  have code: "getQuarterForWeek tz year weekNumber =
      (if S * msPerDay \<le> J * msPerDay - x \<and> J * msPerDay - x \<le> S * msPerDay + 6 * msPerDay
       then (year, 1) else (YearFromDay S, MonthFromDay S div 3 + 1))"
    by (simp add: getQuarterForWeek_def getQuarter_def Let_def split_beta s e jl
        getFullYear_def getMonth_def l)
  have D: "0 < msPerDay" by (simp add: msPerDay_def)
  have le: "(a * msPerDay \<le> b * msPerDay) = (a \<le> b)" for a b :: int
    using D by simp
  have up: "(J * msPerDay - x \<le> S * msPerDay + 6 * msPerDay) = (J \<le> S + 6)"
  proof
    assume "J * msPerDay - x \<le> S * msPerDay + 6 * msPerDay"
    then have "J * msPerDay < S * msPerDay + 7 * msPerDay"
      using x(2) by linarith
    then have "J * msPerDay < (S + 7) * msPerDay"
      by (simp only: distrib_right)
    then have "J < S + 7" using D by simp
    then show "J \<le> S + 6" by simp
  next
    assume "J \<le> S + 6"
    then have "J * msPerDay \<le> (S + 6) * msPerDay" using D by simp
    then have "J * msPerDay \<le> S * msPerDay + 6 * msPerDay"
      by (simp only: distrib_right)
    then show "J * msPerDay - x \<le> S * msPerDay + 6 * msPerDay"
      using x(1) by linarith
  qed
  have lo1: "S * msPerDay \<le> J * msPerDay - x \<Longrightarrow> S \<le> J"
  proof -
    assume "S * msPerDay \<le> J * msPerDay - x"
    then have "S * msPerDay \<le> J * msPerDay" using x(1) by linarith
    then show "S \<le> J" unfolding le .
  qed
  have lo2: "S < J \<Longrightarrow> S * msPerDay \<le> J * msPerDay - x"
  proof -
    assume "S < J"
    then have "S + 1 \<le> J" by simp
    then have "(S + 1) * msPerDay \<le> J * msPerDay" using D by simp
    then have "S * msPerDay + msPerDay \<le> J * msPerDay"
      by (simp only: distrib_right mult_1)
    then show "S * msPerDay \<le> J * msPerDay - x" using x(2) by linarith
  qed
  have jan: "YearFromDay J = year \<and> MonthFromDay J = 0"
    using January_fields[of 0 year] by (simp add: J_def)
  have "(if S * msPerDay \<le> J * msPerDay - x \<and> J * msPerDay - x \<le> S * msPerDay + 6 * msPerDay
       then (year, 1) else (YearFromDay S, MonthFromDay S div 3 + 1))
      = (if S \<le> J \<and> J \<le> S + 6 then (year, 1) else (YearFromDay S, MonthFromDay S div 3 + 1))"
  proof (cases "S = J")
    case True
    then show ?thesis using jan by simp
  next
    case False
    then have "(S * msPerDay \<le> J * msPerDay - x) = (S \<le> J)"
      using lo1 lo2 by auto
    then show ?thesis unfolding up by simp
  qed
  then show ?thesis
    unfolding code
    by (simp add: Let_def s e ju le getUTCFullYear_def Day_whole flip: distrib_right)
qed

text \<open>
  The days of \<^verbatim>\<open>getWeekdays\<close> are Monday to Friday at and east of UTC, and Tuesday to
  Saturday west of UTC.
\<close>

lemma week_days_UTC:
  "getUTCDay (fst (getWeekBounds year weekNumber) + k * msPerDay) = (1 + k) mod 7"
  using week_start_Monday[of year weekNumber]
  unfolding getUTCDay_def Day_shift by (rule WeekDay_after_Monday)

lemma weekdays_east:
  assumes "valid_tz tz" "0 \<le> tz"
  shows "getWeekdays tz year weekNumber
           = map (\<lambda>k. fst (getWeekBounds year weekNumber) + k * msPerDay) [0, 1, 2, 3, 4]
         \<and> map getUTCDay (getWeekdays tz year weekNumber) = [1, 2, 3, 4, 5]"
  using assms(2) week_days_UTC[of year weekNumber 0] week_days_UTC[of year weekNumber 1]
    week_days_UTC[of year weekNumber 2] week_days_UTC[of year weekNumber 3]
    week_days_UTC[of year weekNumber 4]
  by (simp add: getWeekdays_days[OF assms(1)])

lemma weekdays_west:
  assumes "valid_tz tz" "tz < 0"
  shows "getWeekdays tz year weekNumber
           = map (\<lambda>k. fst (getWeekBounds year weekNumber) + k * msPerDay) [1, 2, 3, 4, 5]
         \<and> map getUTCDay (getWeekdays tz year weekNumber) = [2, 3, 4, 5, 6]"
  using assms(2) week_days_UTC[of year weekNumber 5] week_days_UTC[of year weekNumber 1]
    week_days_UTC[of year weekNumber 2] week_days_UTC[of year weekNumber 3]
    week_days_UTC[of year weekNumber 4]
  by (simp add: getWeekdays_days[OF assms(1)])

text \<open>
  A week without entries between its bounds: no office day, not compliant, and one day at
  home for each date of \<^verbatim>\<open>getWeekdays\<close>; for any entries the number of days is the number
  of local weekdays between the bounds, which is five.
\<close>

lemma default_fill:
  assumes "valid_tz tz"
    and "1 \<le> requiredOfficeDaysPerWeek config"
    and "\<forall>entry\<in>set allEntries.
           \<not> inWeek (toISODate (fst (getWeekBounds year weekNumber)))
                    (toISODate (snd (getWeekBounds year weekNumber))) entry"
  shows "(let ws = calculateWeekSummary tz year weekNumber config allEntries
          in ws_officeDays ws = 0
             \<and> \<not> ws_isCompliant ws
             \<and> length (ws_days ws) = 5
             \<and> (\<forall>d\<in>set (ws_days ws). location d = Home)
             \<and> map date (ws_days ws) = map toISODate (getWeekdays tz year weekNumber))
         \<and> map (getDay tz) (getWeekdays tz year weekNumber) = [1, 2, 3, 4, 5]
         \<and> (0 \<le> tz \<longrightarrow>
              getWeekdays tz year weekNumber
                = map (\<lambda>k. fst (getWeekBounds year weekNumber) + k * msPerDay)
                    [0, 1, 2, 3, 4])
         \<and> (\<forall>entries.
              length (ws_days (calculateWeekSummary tz year weekNumber config entries))
                = length (filter (isWeekday tz)
                    (map (\<lambda>k. fst (getWeekBounds year weekNumber) + k * msPerDay)
                       [0, 1, 2, 3, 4, 5, 6]))
              \<and> length (ws_days (calculateWeekSummary tz year weekNumber config entries)) = 5)"
proof -
  define ws where "ws = calculateWeekSummary tz year weekNumber config allEntries"
  have none: "filter (inWeek (toISODate (fst (getWeekBounds year weekNumber)))
                 (toISODate (snd (getWeekBounds year weekNumber)))) allEntries = []"
    using assms(3) by (simp add: filter_empty_conv)
  have days: "ws_days ws = map (dayFor Map.empty) (getWeekdays tz year weekNumber)"
    unfolding ws_def week_fields(5) none by (simp add: loggedMap_of_def)
  have home: "\<forall>d\<in>set (ws_days ws). location d = Home"
    unfolding days by (simp add: dayFor_def Let_def)
  have dates: "map date (ws_days ws) = map toISODate (getWeekdays tz year weekNumber)"
    unfolding days by (simp add: dayFor_def Let_def)
  have len: "length (ws_days ws) = 5"
    unfolding days using getWeekdays_length[OF assms(1)] by simp
  have "filter isOffice (ws_days ws) = []"
    using home by (simp add: filter_empty_conv isOffice_def)
  then have office: "ws_officeDays ws = 0"
    unfolding ws_def week_fields(6) by simp
  have comp: "\<not> ws_isCompliant ws"
    using office assms(2) unfolding ws_def week_fields(7) by simp
  have gen: "length (ws_days (calculateWeekSummary tz year weekNumber config entries))
                = length (filter (isWeekday tz)
                    (map (\<lambda>k. fst (getWeekBounds year weekNumber) + k * msPerDay)
                       [0, 1, 2, 3, 4, 5, 6]))
              \<and> length (ws_days (calculateWeekSummary tz year weekNumber config entries)) = 5"
    for entries
    unfolding week_fields(5) length_map
    using getWeekdays_length[OF assms(1), of year weekNumber]
    by (simp only: getWeekdays_filter[symmetric] simp_thms)
  have east: "getWeekdays tz year weekNumber
      = map (\<lambda>k. fst (getWeekBounds year weekNumber) + k * msPerDay) [0, 1, 2, 3, 4]"
    if "0 \<le> tz"
    using that by (simp add: getWeekdays_days[OF assms(1)])
  show ?thesis
    using office comp len home dates getDay_weekdays[OF assms(1)] gen east
    unfolding ws_def[symmetric] Let_def by blast
qed

text \<open>
  Entries with the same date: the day of the summary is the last of them in list order.
  The days are those of \<^verbatim>\<open>getWeekdays\<close>, with pairwise different date strings; at and east
  of UTC they are Monday to Friday of the week.
\<close>

lemma last_duplicate_wins:
  assumes "valid_tz tz" "valid_year year" "1 \<le> weekNumber" "weekNumber \<le> 53"
  shows "(let ws = calculateWeekSummary tz year weekNumber config allEntries;
              weekdays = getWeekdays tz year weekNumber
          in length (ws_days ws) = 5
             \<and> length weekdays = 5
             \<and> map date (ws_days ws) = map toISODate weekdays
             \<and> distinct (map date (ws_days ws))
             \<and> (\<forall>i<5. (\<exists>e\<in>set allEntries. date e = toISODate (weekdays ! i)) \<longrightarrow>
                   ws_days ws ! i
                     = last (filter (\<lambda>e. date e = toISODate (weekdays ! i)) allEntries))
             \<and> (\<forall>i<5. \<not> (\<exists>e\<in>set allEntries. date e = toISODate (weekdays ! i)) \<longrightarrow>
                   ws_days ws ! i
                     = \<lparr>date = toISODate (weekdays ! i), location = Home, notes' = None\<rparr>))"
proof -
  define ws where "ws = calculateWeekSummary tz year weekNumber config allEntries"
  define weekdays where "weekdays = getWeekdays tz year weekNumber"
  define lm where "lm = loggedMap_of (filter (inWeek (toISODate (fst (getWeekBounds year weekNumber)))
       (toISODate (snd (getWeekBounds year weekNumber)))) allEntries)"
  have days: "ws_days ws = map (dayFor lm) weekdays"
    by (simp add: ws_def weekdays_def lm_def week_fields(5))
  have len: "length weekdays = 5"
    unfolding weekdays_def by (rule getWeekdays_length[OF assms(1)])
  have dates: "map date (ws_days ws) = map toISODate weekdays"
    unfolding days lm_def by (simp add: dayFor_date)
  have dist: "distinct (map date (ws_days ws))"
    unfolding dates weekdays_def by (rule weekdays_dates_distinct[OF assms])
  have look: "ws_days ws ! i =
     (if \<exists>e\<in>set allEntries. date e = toISODate (weekdays ! i)
      then last (filter (\<lambda>e. date e = toISODate (weekdays ! i)) allEntries)
      else \<lparr>date = toISODate (weekdays ! i), location = Home, notes' = None\<rparr>)"
    if "i < 5" for i
  proof -
    note i5 = that
    obtain k where k: "0 \<le> k" "k \<le> 6"
      "weekdays ! i = fst (getWeekBounds year weekNumber) + k * msPerDay"
      unfolding weekdays_def using weekday_offsets[OF assms(1) i5] by blast
    have "ws_days ws ! i = dayFor lm (weekdays ! i)"
      unfolding days using i5 len by simp
    then show ?thesis
      unfolding k(3) lm_def using dayFor_in_week[OF assms(2-4) k(1,2)] by simp
  qed
  show ?thesis
    unfolding ws_def[symmetric] weekdays_def[symmetric] Let_def
    using len dates dist look days by simp
qed

lemma last_duplicate_wins_east:
  assumes "valid_tz tz" "0 \<le> tz" "valid_year year" "1 \<le> weekNumber" "weekNumber \<le> 53"
    and "0 \<le> k" "k \<le> 4"
  defines "d \<equiv> fst (getWeekBounds year weekNumber) + k * msPerDay"
  shows "getUTCDay d = k + 1
    \<and> ws_days (calculateWeekSummary tz year weekNumber config allEntries) ! nat k =
       (if \<exists>e\<in>set allEntries. date e = toISODate d
        then last (filter (\<lambda>e. date e = toISODate d) allEntries)
        else \<lparr>date = toISODate d, location = Home, notes' = None\<rparr>)"
proof -
  have k: "k \<in> {0, 1, 2, 3, 4}" using assms(6,7) by auto
  have wd: "getUTCDay d = k + 1"
    unfolding d_def week_days_UTC using assms(6,7) by simp
  have nth: "getWeekdays tz year weekNumber ! nat k = d"
    unfolding d_def using k weekdays_east[OF assms(1,2), of year weekNumber] by auto
  have len: "nat k < length (getWeekdays tz year weekNumber)"
    using getWeekdays_length[OF assms(1), of year weekNumber] assms(7) by simp
  have k6: "k \<le> 6" using assms(7) by simp
  show ?thesis
    unfolding week_fields(5) nth_map[OF len] nth
    using wd dayFor_in_week[OF assms(3-6) k6, of allEntries] unfolding d_def by simp
qed


section \<open>The claims\<close>

text \<open>
  \<^bold>\<open>C1\<close>.  \<^verbatim>\<open>getQuarterForWeek\<close> is to put a week into quarter 1 of \<open>year\<close> when
  January 1st of \<open>year\<close> lies between its bounds, and otherwise into the year and the
  quarter of its Monday.  At and east of UTC it does (lemma \<open>getQuarterForWeek_east\<close>),
  and \<^verbatim>\<open>getQuarterForWeek(2025, 1)\<close> is \<open>(2025, 1)\<close> in every zone (lemma
  \<open>getQuarterForWeek_local_fields\<close>).  West of UTC it does not: the Monday is a UTC
  midnight, and \<^verbatim>\<open>getFullYear\<close> and \<^verbatim>\<open>getMonth\<close> read its local fields, which are those of
  the Sunday before.  At UTC-5, week 14 of 2024, whose Monday is 2024-04-01, is put into
  quarter 1, and week 27, whose Monday is 2024-07-01, into quarter 2; week 53 of 2023,
  whose Monday is 2024-01-01, is put into quarter 4 of 2023.  At UTC the three answers
  are quarter 2 and quarter 3 of 2024 and quarter 1 of 2024.
\<close>

theorem C1_quarter_west_of_UTC:
  "toISODate (fst (getWeekBounds 2024 14)) = ''2024-04-01''
   \<and> getUTCDay (fst (getWeekBounds 2024 14)) = 1
   \<and> MonthFromDay (Day (fst (getWeekBounds 2024 14))) = 3
   \<and> getMonth (- 300) (fst (getWeekBounds 2024 14)) = 2
   \<and> getQuarterForWeek (- 300) 2024 14 = (2024, 1)
   \<and> getQuarterForWeek 0 2024 14 = (2024, 2)
   \<and> toISODate (fst (getWeekBounds 2024 27)) = ''2024-07-01''
   \<and> getQuarterForWeek (- 300) 2024 27 = (2024, 2)
   \<and> getQuarterForWeek 0 2024 27 = (2024, 3)
   \<and> toISODate (fst (getWeekBounds 2023 53)) = ''2024-01-01''
   \<and> getFullYear (- 300) (fst (getWeekBounds 2023 53)) = 2023
   \<and> getQuarterForWeek (- 300) 2023 53 = (2023, 4)
   \<and> getQuarterForWeek 0 2023 53 = (2024, 1)"
  by code_simp

text \<open>
  \<^bold>\<open>C2\<close>.  For every year and week number, \<^verbatim>\<open>getWeekBounds\<close> returns as start the
  date \<^verbatim>\<open>Date.UTC(year, 0, 4)\<close> moved back by \<open>weekday - 1\<close> days, where \<open>weekday\<close> is
  the weekday of that date counted from Monday = 1 to Sunday = 7, and forward by
  \<open>(weekNumber - 1) * 7\<close> days; the end is the start plus 6 days.  For a valid year
  \<^verbatim>\<open>Date.UTC(year, 0, 4)\<close> is midnight of January 4th of that year.  The start is a
  Monday and the end a Sunday, and \<^verbatim>\<open>getWeekBounds(2025, 1)\<close> runs from 2024-12-30 to
  2025-01-05.
\<close>

theorem C2_getWeekBounds:
  "(let jan4 = Date_UTC year 0 4;
        weekday = (if getUTCDay jan4 = 0 then 7 else getUTCDay jan4);
        start = jan4 - (weekday - 1) * msPerDay + (weekNumber - 1) * 7 * msPerDay
    in getWeekBounds year weekNumber = (start, start + 6 * msPerDay)
       \<and> 1 \<le> weekday \<and> weekday \<le> 7)
   \<and> (valid_year year \<longrightarrow>
         TimeWithinDay (Date_UTC year 0 4) = 0
         \<and> YearFromDay (Day (Date_UTC year 0 4)) = year
         \<and> MonthFromDay (Day (Date_UTC year 0 4)) = 0
         \<and> DateFromDay (Day (Date_UTC year 0 4)) = 4)
   \<and> getUTCDay (fst (getWeekBounds year weekNumber)) = 1
   \<and> getUTCDay (snd (getWeekBounds year weekNumber)) = 0
   \<and> toISODate (fst (getWeekBounds 2025 1)) = ''2024-12-30''
   \<and> toISODate (snd (getWeekBounds 2025 1)) = ''2025-01-05''"
proof -
  have A: "(let jan4 = Date_UTC year 0 4;
        weekday = (if getUTCDay jan4 = 0 then 7 else getUTCDay jan4);
        start = jan4 - (weekday - 1) * msPerDay + (weekNumber - 1) * 7 * msPerDay
    in getWeekBounds year weekNumber = (start, start + 6 * msPerDay)
       \<and> 1 \<le> weekday \<and> weekday \<le> 7)"
    using isoDay_range[of "Date_UTC year 0 4"]
    by (simp add: getWeekBounds_eq Let_def algebra_simps)
  have B: "TimeWithinDay (Date_UTC year 0 4) = 0
         \<and> YearFromDay (Day (Date_UTC year 0 4)) = year
         \<and> MonthFromDay (Day (Date_UTC year 0 4)) = 0
         \<and> DateFromDay (Day (Date_UTC year 0 4)) = 4" if "valid_year year"
  proof -
    have "Day (Date_UTC year 0 4) = DayFromYear year + 3"
      using that by (simp add: Day_Date_UTC MakeFullYear_valid MakeDay_January)
    moreover have "TimeWithinDay (Date_UTC year 0 4) = 0"
      by (simp add: TimeWithinDay_def Date_UTC_def)
    ultimately show ?thesis using January_fields[of 3 year] by simp
  qed
  have C: "getUTCDay (fst (getWeekBounds year weekNumber)) = 1"
    by (rule week_start_Monday)
  have "snd (getWeekBounds year weekNumber) = fst (getWeekBounds year weekNumber) + 6 * msPerDay"
    by (simp add: getWeekBounds_eq Let_def)
  then have "getUTCDay (snd (getWeekBounds year weekNumber))
      = (Day (fst (getWeekBounds year weekNumber)) + 4 + 6) mod 7"
    by (simp add: getUTCDay_def Day_shift WeekDay_def)
  also have "\<dots> = 0"
    using C unfolding getUTCDay_def WeekDay_def by presburger
  finally have D: "getUTCDay (snd (getWeekBounds year weekNumber)) = 0" .
  have E: "toISODate (fst (getWeekBounds 2025 1)) = ''2024-12-30''"
      "toISODate (snd (getWeekBounds 2025 1)) = ''2025-01-05''"
    by code_simp+
  show ?thesis using A B C D E by blast
qed

theorem C2_getWeekBounds_witness:
  "valid_year 2025 \<and> YearFromDay (Day (Date_UTC 2025 0 4)) = 2025
   \<and> getWeekBounds 2025 1 = (1735516800000, 1736035200000)"
proof -
  have v: "valid_year 2025" by (simp add: valid_year_def)
  have "getWeekBounds 2025 1 = (1735516800000, 1736035200000)" by code_simp
  then show ?thesis using v C2_getWeekBounds[of 2025 1] by blast
qed

text \<open>
  \<^bold>\<open>C3\<close>.  The quarters of a year do not hold exactly its ISO week numbers.  In 2019,
  a year of 52 ISO weeks, \<^verbatim>\<open>getWeeksInQuarter(2019, 4)\<close> contains 53: the bounds computed
  for week 53 are 2019-12-30 to 2020-01-05, the Monday lies in 2019, and only January
  1st of 2019 is tested.  \<^verbatim>\<open>getWeekNumber\<close> gives that Monday the week number 1 (the day
  before it has 52), and the same week is week 1 of the first quarter of 2020.  In 2024
  the number 53 is in the lists of the first and of the fourth quarter.
\<close>

theorem C3_week_53_in_two_years:
  "53 \<in> set (getWeeksInQuarter 0 2019 4)
   \<and> getQuarterForWeek 0 2019 53 = (2019, 4)
   \<and> toISODate (fst (getWeekBounds 2019 53)) = ''2019-12-30''
   \<and> toISODate (snd (getWeekBounds 2019 53)) = ''2020-01-05''
   \<and> getWeekNumber 0 (fst (getWeekBounds 2019 53)) = 1
   \<and> getWeekNumber 0 (fst (getWeekBounds 2019 53) - msPerDay) = 52
   \<and> getWeekBounds 2019 53 = getWeekBounds 2020 1
   \<and> 1 \<in> set (getWeeksInQuarter 0 2020 1)
   \<and> 53 \<in> set (getWeeksInQuarter 0 2024 1)
   \<and> 53 \<in> set (getWeeksInQuarter 0 2024 4)"
  by code_simp

text \<open>
  \<^bold>\<open>C4\<close>.  When the check of the previous year's week 53 succeeds, as for 2022 in
  every time zone tried, the number 53 is the last element of the list, not the first:
  \<^verbatim>\<open>unshift(53)\<close> puts it in front and the numeric sort that follows moves it behind
  the week numbers 1 to 13.  The week found by the check is the week that is also week
  1 of the year, and an ISO week 53 that does contain January 1st (2020-12-28 to
  2021-01-03) stays in the fourth quarter of its own year.
\<close>

theorem C4_week_53_sorted_last:
  "getQuarterForWeek 0 2021 53 = (2022, 1)
   \<and> getWeeksInQuarter 0 2022 1 = [1..13] @ [53]
   \<and> hd (getWeeksInQuarter 0 2022 1) = 1
   \<and> last (getWeeksInQuarter 0 2022 1) = 53
   \<and> getWeeksInQuarter 540 2022 1 = [1..13] @ [53]
   \<and> getWeeksInQuarter (- 300) 2022 1 = [1..13] @ [53]
   \<and> getWeekBounds 2021 53 = getWeekBounds 2022 1
   \<and> getQuarterForWeek 0 2020 53 = (2020, 4)
   \<and> toISODate (snd (getWeekBounds 2020 53)) = ''2021-01-03''"
  by code_simp

text \<open>
  \<^bold>\<open>C5\<close>.  The weeks of \<^verbatim>\<open>calculateQuarterSummary(2022, 1, ...)\<close> carry the week
  numbers 1 to 13 and then 53.  The entry for 53, added because week 53 of 2021
  (2022-01-03 to 2022-01-09) is assigned to the first quarter of 2022, is summarized
  with the year 2022: its bounds are 2023-01-02 to 2023-01-08, a week that
  \<^verbatim>\<open>getQuarterForWeek\<close> assigns to the first quarter of 2023.
\<close>

theorem C5_week_53_wrong_year:
  "(let q = calculateQuarterSummary 0 2022 1 DEFAULT_CONFIG []
    in map ws_weekNumber (qs_weeks q) = [1..13] @ [53]
       \<and> ws_weekNumber (last (qs_weeks q)) = 53
       \<and> ws_year (last (qs_weeks q)) = 2022
       \<and> ws_startDate (last (qs_weeks q)) = ''2023-01-02''
       \<and> ws_endDate (last (qs_weeks q)) = ''2023-01-08'')
   \<and> getQuarterForWeek 0 2022 53 = (2023, 1)
   \<and> getQuarterForWeek 0 2021 53 = (2022, 1)
   \<and> toISODate (fst (getWeekBounds 2021 53)) = ''2022-01-03''
   \<and> toISODate (snd (getWeekBounds 2021 53)) = ''2022-01-09''
   \<and> getWeekBounds 2021 53 = getWeekBounds 2022 1"
  by code_simp

text \<open>
  \<^bold>\<open>C6\<close>.  \<^verbatim>\<open>calculateQuarterSummary\<close> summarizes the weeks of
  \<^verbatim>\<open>getWeeksInQuarter\<close> in order, sets \<open>compliantWeeks\<close> to the number of weeks with
  \<open>isCompliant\<close>, \<open>totalWeeks\<close> to the number of weeks, and the status to compliant if
  \<open>compliantWeeks\<close> reaches \<open>requiredCompliantWeeksPerQuarter\<close>, else to warning if it
  reaches \<open>warningThresholdWeeks\<close>, else to danger.  With the thresholds 8 and 7, nine
  compliant weeks give compliant, seven give warning and five give danger.
\<close>

theorem C6_quarter_status:
  "(let s = calculateQuarterSummary tz year quarter config allEntries
    in qs_weeks s = map (summarizeWeek tz year config allEntries)
                      (getWeeksInQuarter tz year quarter)
       \<and> qs_compliantWeeks s = int (length (filter ws_isCompliant (qs_weeks s)))
       \<and> qs_compliantWeeks s =
            int (length (filter (ws_isCompliant \<circ> summarizeWeek tz year config allEntries)
                           (getWeeksInQuarter tz year quarter)))
       \<and> qs_totalWeeks s = int (length (qs_weeks s))
       \<and> qs_totalWeeks s = int (length (getWeeksInQuarter tz year quarter))
       \<and> 0 \<le> qs_compliantWeeks s \<and> qs_compliantWeeks s \<le> qs_totalWeeks s
       \<and> qs_status s =
            (if qs_compliantWeeks s \<ge> requiredCompliantWeeksPerQuarter config then Compliant
             else if qs_compliantWeeks s \<ge> warningThresholdWeeks config then Warning
             else Danger)
       \<and> (requiredCompliantWeeksPerQuarter config = 8 \<and> warningThresholdWeeks config = 7
            \<longrightarrow> (qs_compliantWeeks s = 9 \<longrightarrow> qs_status s = Compliant)
              \<and> (qs_compliantWeeks s = 7 \<longrightarrow> qs_status s = Warning)
              \<and> (qs_compliantWeeks s = 5 \<longrightarrow> qs_status s = Danger)))"
proof -
  define s where "s = calculateQuarterSummary tz year quarter config allEntries"
  define weeks where "weeks = map (summarizeWeek tz year config allEntries)
                                (getWeeksInQuarter tz year quarter)"
  have w: "qs_weeks s = weeks"
    by (simp add: s_def weeks_def calculateQuarterSummary_def Let_def)
  have c: "qs_compliantWeeks s = int (length (filter ws_isCompliant weeks))"
    by (simp add: s_def weeks_def calculateQuarterSummary_def Let_def)
  have c': "length (filter ws_isCompliant weeks)
      = length (filter (ws_isCompliant \<circ> summarizeWeek tz year config allEntries)
                  (getWeeksInQuarter tz year quarter))"
    unfolding weeks_def filter_map by simp
  have t: "qs_totalWeeks s = int (length weeks)"
    by (simp add: s_def weeks_def calculateQuarterSummary_def Let_def)
  have le: "length (filter ws_isCompliant weeks) \<le> length weeks"
    by (rule length_filter_le)
  have st: "qs_status s =
      (if qs_compliantWeeks s \<ge> requiredCompliantWeeksPerQuarter config then Compliant
       else if qs_compliantWeeks s \<ge> warningThresholdWeeks config then Warning
       else Danger)"
    by (simp add: s_def calculateQuarterSummary_def Let_def)
  have ex: "(qs_compliantWeeks s = 9 \<longrightarrow> qs_status s = Compliant)
      \<and> (qs_compliantWeeks s = 7 \<longrightarrow> qs_status s = Warning)
      \<and> (qs_compliantWeeks s = 5 \<longrightarrow> qs_status s = Danger)"
    if "requiredCompliantWeeksPerQuarter config = 8 \<and> warningThresholdWeeks config = 7"
    unfolding st using that by simp
  have "qs_weeks s = weeks
      \<and> qs_compliantWeeks s = int (length (filter ws_isCompliant (qs_weeks s)))
      \<and> qs_compliantWeeks s =
            int (length (filter (ws_isCompliant \<circ> summarizeWeek tz year config allEntries)
                           (getWeeksInQuarter tz year quarter)))
      \<and> qs_totalWeeks s = int (length (qs_weeks s))
      \<and> qs_totalWeeks s = int (length (getWeeksInQuarter tz year quarter))
      \<and> 0 \<le> qs_compliantWeeks s \<and> qs_compliantWeeks s \<le> qs_totalWeeks s"
    using w c c' t le by (simp add: weeks_def)
  then show ?thesis
    unfolding Let_def s_def[symmetric] weeks_def[symmetric]
    using st ex by blast
qed

lemma example_nine_weeks:
  "qs_compliantWeeks (calculateQuarterSummary 0 2025 1 DEFAULT_CONFIG (exampleEntries 9)) = 9"
  by code_simp

theorem C6_quarter_status_witness:
  "requiredCompliantWeeksPerQuarter DEFAULT_CONFIG = 8
   \<and> warningThresholdWeeks DEFAULT_CONFIG = 7
   \<and> qs_compliantWeeks (calculateQuarterSummary 0 2025 1 DEFAULT_CONFIG (exampleEntries 9)) = 9
   \<and> qs_status (calculateQuarterSummary 0 2025 1 DEFAULT_CONFIG (exampleEntries 9)) = Compliant"
proof -
  have c: "requiredCompliantWeeksPerQuarter DEFAULT_CONFIG = 8"
      "warningThresholdWeeks DEFAULT_CONFIG = 7"
    by (simp_all add: DEFAULT_CONFIG_def)
  have "qs_compliantWeeks (calculateQuarterSummary 0 2025 1 DEFAULT_CONFIG (exampleEntries 9)) = 9
      \<longrightarrow> qs_status (calculateQuarterSummary 0 2025 1 DEFAULT_CONFIG (exampleEntries 9))
            = Compliant"
    using c C6_quarter_status[of 0 2025 1 DEFAULT_CONFIG "exampleEntries 9"]
    unfolding Let_def by blast
  then show ?thesis
    using c example_nine_weeks by simp
qed

text \<open>
  \<^bold>\<open>C7\<close>.  A week without entries between its bounds is to have no office day, not
  to be compliant, and to have five days at home, one for each weekday from Monday to
  Friday.  The counts hold in every zone (lemma \<open>default_fill\<close>), and at and east of
  UTC the five days are Monday to Friday (lemma \<open>weekdays_east\<close>).  West of UTC they
  are Tuesday to Saturday (lemma \<open>weekdays_west\<close>): at UTC-5 the summary of week 2 of
  2025 (2025-01-06 to 2025-01-12) without any entry has the five days 2025-01-07 to
  2025-01-11, none for Monday 2025-01-06 and one for Saturday 2025-01-11.
\<close>

theorem C7_default_days_west_of_UTC:
  "(let ws = calculateWeekSummary (- 300) 2025 2 DEFAULT_CONFIG []
    in ws_startDate ws = ''2025-01-06''
       \<and> ws_endDate ws = ''2025-01-12''
       \<and> getUTCDay (fst (getWeekBounds 2025 2)) = 1
       \<and> ws_days ws = map homeDay
            [''2025-01-07'', ''2025-01-08'', ''2025-01-09'', ''2025-01-10'', ''2025-01-11'']
       \<and> map getUTCDay (getWeekdays (- 300) 2025 2) = [2, 3, 4, 5, 6]
       \<and> ws_officeDays ws = 0
       \<and> \<not> ws_isCompliant ws)"
  by code_simp

text \<open>
  \<^bold>\<open>C8\<close>.  Entries dated on the Saturday or Sunday of the week are kept out of the
  days of the week summary, and out of the office-day count, in the time zones at or
  east of UTC (lemmas \<open>weekend_excluded_east\<close> and \<open>weekend_ignored_east\<close>), but not west
  of UTC.  There \<^verbatim>\<open>isWeekday\<close> reads the local weekday of the UTC midnights that
  \<^verbatim>\<open>getWeekBounds\<close> produces, so the days are Tuesday to Saturday by their ISO date: at
  UTC-5, in week 2 of 2025 (2025-01-06 to 2025-01-12), an office entry dated Saturday
  2025-01-11 is one of the five days and is counted as an office day.
\<close>

theorem C8_weekend_entry_counted:
  "(let ws = calculateWeekSummary (- 300) 2025 2 DEFAULT_CONFIG [officeDay ''2025-01-11'']
    in ws_startDate ws = ''2025-01-06''
       \<and> ws_endDate ws = ''2025-01-12''
       \<and> toISODate (fst (getWeekBounds 2025 2) + 5 * msPerDay) = ''2025-01-11''
       \<and> getUTCDay (fst (getWeekBounds 2025 2) + 5 * msPerDay) = 6
       \<and> officeDay ''2025-01-11'' \<in> set (ws_days ws)
       \<and> map date (ws_days ws)
           = [''2025-01-07'', ''2025-01-08'', ''2025-01-09'', ''2025-01-10'', ''2025-01-11'']
       \<and> ws_officeDays ws = 1)"
  by code_simp

text \<open>
  \<^bold>\<open>C9\<close> (amended).  For a valid year and a week number from 1 to 53 whose Thursday
  lies in that year (the ISO rule keeps the week in the year), \<^verbatim>\<open>getWeekNumber\<close> applied
  to the start of \<^verbatim>\<open>getWeekBounds(year, weekNumber)\<close> returns \<open>weekNumber\<close> in the time
  zones at or east of UTC.  West of UTC the start, a UTC midnight, is still Sunday in
  local time, and \<^verbatim>\<open>getWeekNumber\<close>, which reads the local calendar date, returns
  \<open>weekNumber - 1\<close> for every week number from 2 on.
\<close>

theorem C9_round_trip:
  assumes "valid_tz tz" "valid_year year" "1 \<le> weekNumber" "weekNumber \<le> 53"
    and "getUTCFullYear (fst (getWeekBounds year weekNumber) + 3 * msPerDay) = year"
  shows "(0 \<le> tz \<longrightarrow> getWeekNumber tz (fst (getWeekBounds year weekNumber)) = weekNumber)
       \<and> (tz < 0 \<and> 2 \<le> weekNumber \<longrightarrow>
            getWeekNumber tz (fst (getWeekBounds year weekNumber)) = weekNumber - 1)"
proof -
  define s where "s = fst (getWeekBounds year weekNumber)"
  define S where "S = Day s"
  define wd where "wd = (if getUTCDay (Date_UTC year 0 4) = 0 then 7
                         else getUTCDay (Date_UTC year 0 4))"
  have s: "s = S * msPerDay"
    unfolding S_def s_def by (rule week_start_days)
  have wd: "1 \<le> wd" "wd \<le> 7"
    using isoDay_range[of "Date_UTC year 0 4"] by (simp_all add: wd_def)
  have S: "S = DayFromYear year + 3 + (1 - wd + (weekNumber - 1) * 7)"
    unfolding S_def s_def wd_def by (rule week_start_day[OF assms(2)])
  have mon: "WeekDay S = 1"
    using week_start_Monday[of year weekNumber] by (simp add: getUTCDay_def S_def s_def)
  have thu: "YearFromDay (S + 3) = year"
    using assms(5) by (simp add: getUTCFullYear_def Day_shift S_def s_def)
  have y100: "99 < year" using assms(2) by (simp add: valid_year_def)
  have east: "getWeekNumber tz s = weekNumber" if "0 \<le> tz"
  proof -
    have L: "Day (LocalTime tz s) = S"
      unfolding s using local_Day[OF assms(1), of S] that by simp
    have "year - 1 \<le> YearFromDay S"
      using week_day_year(1)[OF assms(2-4), of 0] by (simp add: S_def s_def)
    then have a: "99 < YearFromDay S"
      using assms(2) by (simp add: valid_year_def)
    have t: "S + 4 - (if WeekDay S = 0 then 7 else WeekDay S) = S + 3"
      by (simp add: mon)
    have b: "99 < YearFromDay (S + 4 - (if WeekDay S = 0 then 7 else WeekDay S))"
      unfolding t thu by (rule y100)
    have "getWeekNumber tz s = ceil_div (S + 3 - DayFromYear year + 1) 7"
      unfolding getWeekNumber_local_day[OF a b L] Let_def t thu ..
    also have "S + 3 - DayFromYear year + 1 = 7 * weekNumber - (wd - 1)"
      unfolding S by simp
    also have "ceil_div (7 * weekNumber - (wd - 1)) 7 = weekNumber"
      using wd by (intro ceil_div_week) simp_all
    finally show ?thesis .
  qed
  have west: "getWeekNumber tz s = weekNumber - 1" if "tz < 0" "2 \<le> weekNumber"
  proof -
    have L: "Day (LocalTime tz s) = S - 1"
      unfolding s using local_Day[OF assms(1), of S] that(1) by simp
    have sun: "WeekDay (S - 1) = 0"
      using WeekDay_after_Monday[OF mon, of "- 1"] by simp
    have "DayFromYear year \<le> S - 1"
      unfolding S using wd that(2) by simp
    then have "year \<le> YearFromDay (S - 1)" by (rule YearFromDay_ge)
    then have a: "99 < YearFromDay (S - 1)" using y100 by simp
    have t: "S - 1 + 4 - (if WeekDay (S - 1) = 0 then 7 else WeekDay (S - 1)) = S - 4"
      by (simp add: sun)
    have lo: "DayFromYear year \<le> S - 4"
      unfolding S using wd that(2) by simp
    have "S + 3 < DayFromYear (year + 1)"
      using YearFromDay_bounds[of "S + 3"] by (simp add: thu)
    then have hi: "S - 4 < DayFromYear (year + 1)" by simp
    have thu': "YearFromDay (S - 4) = year"
      using lo hi by (rule YearFromDay_unique)
    have b: "99 < YearFromDay (S - 1 + 4 - (if WeekDay (S - 1) = 0 then 7 else WeekDay (S - 1)))"
      unfolding t thu' by (rule y100)
    have "getWeekNumber tz s = ceil_div (S - 4 - DayFromYear year + 1) 7"
      unfolding getWeekNumber_local_day[OF a b L] Let_def t thu' ..
    also have "S - 4 - DayFromYear year + 1 = 7 * (weekNumber - 1) - (wd - 1)"
      unfolding S by simp
    also have "ceil_div (7 * (weekNumber - 1) - (wd - 1)) 7 = weekNumber - 1"
      using wd by (intro ceil_div_week) simp_all
    finally show ?thesis .
  qed
  show ?thesis using east west unfolding s_def by blast
qed

lemma C9_example_iso_year: "getUTCFullYear (fst (getWeekBounds 2025 2) + 3 * msPerDay) = 2025"
  by code_simp

theorem C9_round_trip_witness:
  "getWeekNumber 0 (fst (getWeekBounds 2025 2)) = 2
   \<and> getWeekNumber 540 (fst (getWeekBounds 2025 2)) = 2
   \<and> getWeekNumber (- 300) (fst (getWeekBounds 2025 2)) = 2 - 1"
proof -
  have v: "valid_tz 0" "valid_tz 540" "valid_tz (- 300)" "valid_year 2025"
      "(1::int) \<le> 2" "(2::int) \<le> 53"
    by (simp_all add: valid_tz_def valid_year_def)
  show ?thesis
    using C9_round_trip[OF v(1) v(4-6) C9_example_iso_year]
      C9_round_trip[OF v(2) v(4-6) C9_example_iso_year]
      C9_round_trip[OF v(3) v(4-6) C9_example_iso_year]
    by simp
qed

theorem C9_round_trip_counterexample:
  "valid_tz (- 300) \<and> valid_year 2025
   \<and> getUTCFullYear (fst (getWeekBounds 2025 2) + 3 * msPerDay) = 2025
   \<and> toISODate (fst (getWeekBounds 2025 2)) = ''2025-01-06''
   \<and> getWeekNumber (- 300) (fst (getWeekBounds 2025 2)) = 1
   \<and> getWeekNumber (- 300) (fst (getWeekBounds 2025 2)) \<noteq> 2"
  by code_simp

text \<open>
  \<^bold>\<open>C10\<close>.  When several entries have the date of one weekday of the week, the
  summary is to take the last of them in list order as the record of that day, and to
  have one day for each weekday.  At and east of UTC it does (lemmas
  \<open>last_duplicate_wins\<close> and \<open>last_duplicate_wins_east\<close>).  West of UTC the days are
  Tuesday to Saturday, so entries dated on the Monday are not used at all: at UTC-5, in
  week 2 of 2025, of two entries dated Monday 2025-01-06, the first at home and the
  second at the office, neither is a day of the summary, and no office day is counted.
  At UTC the second one is the first day of the summary and one office day is counted.
\<close>

theorem C10_monday_duplicates_west_of_UTC:
  "(let ws = calculateWeekSummary (- 300) 2025 2 DEFAULT_CONFIG
               [homeDay ''2025-01-06'', officeDay ''2025-01-06'']
    in ws_startDate ws = ''2025-01-06''
       \<and> getUTCDay (fst (getWeekBounds 2025 2)) = 1
       \<and> map date (ws_days ws)
           = [''2025-01-07'', ''2025-01-08'', ''2025-01-09'', ''2025-01-10'', ''2025-01-11'']
       \<and> officeDay ''2025-01-06'' \<notin> set (ws_days ws)
       \<and> ws_officeDays ws = 0)
   \<and> (let ws = calculateWeekSummary 0 2025 2 DEFAULT_CONFIG
               [homeDay ''2025-01-06'', officeDay ''2025-01-06'']
       in ws_days ws ! 0 = officeDay ''2025-01-06'' \<and> ws_officeDays ws = 1)"
  by code_simp

end
